theory Spec2Isabelle
  imports Complex_Main "HOL-Library.Product_Lexorder"
begin

section \<open>JavaScript values used by the page module\<close>

text \<open>
  The module \<^verbatim>\<open>pages/instance/[identifier]/index.tsx\<close> computes with JavaScript numbers
  and strings. A number is modelled by \<open>jsnum\<close>: \<open>Finite r\<close> stands for the finite double
  of value \<open>r\<close> (the two zeros are one value: the code never distinguishes them),
  \<open>NaN\<close> and the two infinities are themselves. A string is a \<open>string\<close>: a list of
  code units, here restricted to the units below 256.
\<close>

datatype jsnum = NaN | NegInfinity | Infinity | Finite real

datatype js_error = TypeError

abbreviation LF :: char where
  "LF \<equiv> CHR 0x0A"

subsection \<open>String and array methods\<close>

text \<open>\<^verbatim>\<open>s.startsWith(p)\<close>.\<close>

definition str_startsWith :: "string \<Rightarrow> string \<Rightarrow> bool" where
  "str_startsWith s p = (take (length p) s = p)"

text \<open>\<^verbatim>\<open>s.includes(p)\<close>: \<open>p\<close> occurs in \<open>s\<close> at some position.\<close>

fun str_includes :: "string \<Rightarrow> string \<Rightarrow> bool" where
  "str_includes [] p = (p = [])"
| "str_includes (c # cs) p = (str_startsWith (c # cs) p \<or> str_includes cs p)"

text \<open>\<^verbatim>\<open>s.indexOf(p)\<close>: the first position of \<open>p\<close> in \<open>s\<close>, or \<open>-1\<close>.\<close>

fun indexOf_from :: "string \<Rightarrow> string \<Rightarrow> int \<Rightarrow> int" where
  "indexOf_from [] p i = (if p = [] then i else - 1)"
| "indexOf_from (c # cs) p i =
     (if str_startsWith (c # cs) p then i else indexOf_from cs p (i + 1))"

definition str_indexOf :: "string \<Rightarrow> string \<Rightarrow> int" where
  "str_indexOf s p = indexOf_from s p 0"

text \<open>
  \<^verbatim>\<open>s.slice(start)\<close>: a negative start counts from the end, and the start is clamped to
  the string.
\<close>

definition str_slice :: "string \<Rightarrow> int \<Rightarrow> string" where
  "str_slice s start =
     (let len = int (length s);
          from = (if start < 0 then max (len + start) 0 else min start len)
      in drop (nat from) s)"

text \<open>
  \<^verbatim>\<open>s.split(c)\<close> for a separator of one character: the pieces between the separators,
  empty pieces included; a string without separator is its own only piece.
\<close>

fun str_split :: "string \<Rightarrow> char \<Rightarrow> string list" where
  "str_split [] c = [[]]"
| "str_split (x # xs) c =
     (if x = c then [] # str_split xs c
      else (case str_split xs c of
              [] \<Rightarrow> [[x]]
            | piece # pieces \<Rightarrow> (x # piece) # pieces))"

text \<open>\<^verbatim>\<open>xs.findIndex(P)\<close>: the first index whose element satisfies \<open>P\<close>, or \<open>-1\<close>.\<close>

fun findIndex_from :: "('a \<Rightarrow> bool) \<Rightarrow> 'a list \<Rightarrow> int \<Rightarrow> int" where
  "findIndex_from P [] i = - 1"
| "findIndex_from P (x # xs) i = (if P x then i else findIndex_from P xs (i + 1))"

definition arr_findIndex :: "'a list \<Rightarrow> ('a \<Rightarrow> bool) \<Rightarrow> int" where
  "arr_findIndex xs P = findIndex_from P xs 0"

text \<open>
  \<^verbatim>\<open>xs[i]\<close> on an array: \<^verbatim>\<open>undefined\<close> (\<open>None\<close>) when \<open>i\<close> is not an index of the array.
\<close>

definition arr_get :: "'a list \<Rightarrow> int \<Rightarrow> 'a option" where
  "arr_get xs i = (if 0 \<le> i \<and> i < int (length xs) then Some (xs ! nat i) else None)"

subsection \<open>parseInt\<close>

text \<open>
  \<^verbatim>\<open>parseInt(s)\<close> with no radix: leading white space is skipped, one sign is read, the
  prefix \<^verbatim>\<open>0x\<close> or \<^verbatim>\<open>0X\<close> selects radix 16 (otherwise 10), and the longest run of digits
  of the radix is the value; no digit gives \<open>NaN\<close>. The integer is then rounded to the
  nearest double, ties to even, and to an infinity from \<open>2 ^ 1024\<close> on.
\<close>

definition isWhiteSpace :: "char \<Rightarrow> bool" where
  "isWhiteSpace c = (c \<in> set [CHR 0x09, CHR 0x0A, CHR 0x0B, CHR 0x0C, CHR 0x0D, CHR 0x20, CHR 0xA0])"

definition digitValue :: "char \<Rightarrow> nat option" where
  "digitValue c =
     (let n = (of_char c :: nat) in
      if 48 \<le> n \<and> n \<le> 57 then Some (n - 48)
      else if 97 \<le> n \<and> n \<le> 122 then Some (n - 87)
      else if 65 \<le> n \<and> n \<le> 90 then Some (n - 55)
      else None)"

definition isRadixDigit :: "nat \<Rightarrow> char \<Rightarrow> bool" where
  "isRadixDigit R c = (case digitValue c of None \<Rightarrow> False | Some d \<Rightarrow> d < R)"

fun mathInt :: "nat \<Rightarrow> nat \<Rightarrow> string \<Rightarrow> nat" where
  "mathInt R acc [] = acc"
| "mathInt R acc (c # cs) =
     mathInt R (acc * R + (case digitValue c of None \<Rightarrow> 0 | Some d \<Rightarrow> d)) cs"

fun bitLength :: "nat \<Rightarrow> nat" where
  "bitLength n = (if n = 0 then 0 else Suc (bitLength (n div 2)))"

definition numberValue :: "int \<Rightarrow> jsnum" where
  "numberValue n =
     (let m = nat \<bar>n\<bar> in
      if m \<le> 2 ^ 53 then Finite (of_int n)
      else
        let e = bitLength m - 53;
            q = m div 2 ^ e;
            r = m mod 2 ^ e;
            q' = (if 2 ^ e < 2 * r \<or> (2 * r = 2 ^ e \<and> odd q) then q + 1 else q);
            v = q' * 2 ^ e
        in if 2 ^ 1024 \<le> v then (if n < 0 then NegInfinity else Infinity)
           else Finite (of_int (sgn n * int v)))"

definition parseInt :: "string \<Rightarrow> jsnum" where
  "parseInt inputString =
     (let S = dropWhile isWhiteSpace inputString;
          sign = (if S \<noteq> [] \<and> hd S = CHR ''-'' then - 1 else (1::int));
          S1 = (if S \<noteq> [] \<and> (hd S = CHR ''+'' \<or> hd S = CHR ''-'') then tl S else S);
          hex = (take 2 S1 = ''0x'' \<or> take 2 S1 = ''0X'');
          R = (if hex then 16 else 10);
          S2 = (if hex then drop 2 S1 else S1);
          Z = takeWhile (isRadixDigit R) S2
      in if Z = [] then NaN else numberValue (sign * int (mathInt R 0 Z)))"

section \<open>The report parser\<close>

text \<open>
  \<^verbatim>\<open>type TransactionInfo = { activeTime: number; info: string[] }\<close>
\<close>

record TransactionInfo =
  activeTime :: jsnum
  info :: "string list"

text \<open>
  \<^verbatim>\<open>parseInnoDbStatus\<close> keeps one \<^verbatim>\<open>TransactionInfo\<close> object in the variable
  \<^verbatim>\<open>transaction\<close>, stores that same object under a thread id in \<^verbatim>\<open>transactions\<close>, and
  goes on pushing lines to it. The objects therefore live in a store, addressed by their
  index; the variable and the dictionary hold addresses. The dictionary's keys are the
  numbers the thread ids parse to (a property key is the number's string, which is one
  string per \<open>jsnum\<close>).
\<close>

type_synonym ref = nat

record parse_state =
  st_store :: "TransactionInfo list"
  st_transactions :: "jsnum \<rightharpoonup> ref"
  st_transaction :: ref

text \<open>The state before the loop: one object, with the sentinel \<open>-1\<close> and no line.\<close>

definition init_state :: parse_state where
  "init_state =
     \<lparr>st_store = [\<lparr>activeTime = Finite (- 1), info = []\<rparr>],
      st_transactions = Map.empty,
      st_transaction = 0\<rparr>"

text \<open>
  The branch of a line starting with \<^verbatim>\<open>---TRANSACTION\<close>: a new object, whose
  \<open>activeTime\<close> is what follows the 8 characters at \<^verbatim>\<open>line.indexOf(', ACTIVE')\<close>,
  becomes the current one.
\<close>

definition new_transaction :: "string \<Rightarrow> parse_state \<Rightarrow> parse_state" where
  "new_transaction line s =
     (let index = str_indexOf line '', ACTIVE'';
          activeTime = parseInt (str_slice line (index + 8))
      in s\<lparr>st_store := st_store s @ [\<lparr>activeTime = activeTime, info = []\<rparr>],
           st_transaction := length (st_store s)\<rparr>)"

text \<open>
  \<^verbatim>\<open>parseInt(line.split(' ')[3])\<close>: a missing fourth piece is \<^verbatim>\<open>undefined\<close>, which
  \<^verbatim>\<open>parseInt\<close> reads as the string \<^verbatim>\<open>undefined\<close>.
\<close>

definition threadId_of :: "string \<Rightarrow> jsnum" where
  "threadId_of line =
     (case arr_get (str_split line CHR '' '') 3 of
        None \<Rightarrow> parseInt ''undefined''
      | Some piece \<Rightarrow> parseInt piece)"

text \<open>
  The branch of a line starting with \<^verbatim>\<open>MariaDB thread id\<close>:
  \<^verbatim>\<open>transactions[threadId] = transaction\<close> stores the address of the current object.
\<close>

definition assign_thread :: "string \<Rightarrow> parse_state \<Rightarrow> parse_state" where
  "assign_thread line s =
     s\<lparr>st_transactions := (st_transactions s)(threadId_of line \<mapsto> st_transaction s)\<rparr>"

text \<open>\<^verbatim>\<open>transaction.info.push(line)\<close> on the current object.\<close>

definition push_line :: "string \<Rightarrow> parse_state \<Rightarrow> parse_state" where
  "push_line line s =
     (let r = st_transaction s;
          t = st_store s ! r
      in s\<lparr>st_store := (st_store s)[r := t\<lparr>info := info t @ [line]\<rparr>]\<rparr>)"

text \<open>The loop body after the terminator test, for one line.\<close>

definition loop_body :: "string \<Rightarrow> parse_state \<Rightarrow> parse_state" where
  "loop_body line s =
     (let s1 = (if str_startsWith line ''---TRANSACTION'' then new_transaction line s else s);
          s2 = (if str_startsWith line ''MariaDB thread id'' then assign_thread line s1 else s1)
      in push_line line s2)"

text \<open>
  \<^verbatim>\<open>for (let i = transactionsStartIndex; i < splitInnoDbStatus.length; i++)\<close>. The line
  is \<^verbatim>\<open>splitInnoDbStatus[i]\<close>; calling \<^verbatim>\<open>startsWith\<close> on \<^verbatim>\<open>undefined\<close> throws a
  \<^verbatim>\<open>TypeError\<close>.
\<close>

function parse_loop :: "string list \<Rightarrow> int \<Rightarrow> parse_state \<Rightarrow> js_error + parse_state" where
  "parse_loop splitInnoDbStatus i s =
     (if i < int (length splitInnoDbStatus) then
        (case arr_get splitInnoDbStatus i of
           None \<Rightarrow> Inl TypeError
         | Some line \<Rightarrow>
             if str_startsWith line ''--------'' then Inr s
             else parse_loop splitInnoDbStatus (i + 1) (loop_body line s))
      else Inr s)"
  by pat_completeness auto
termination
  by (relation "measure (\<lambda>(ls, i, s). nat (int (length ls) - i))") auto

declare parse_loop.simps [simp del]

text \<open>
  The result: the dictionary \<^verbatim>\<open>transactions\<close> with the objects its entries refer to.
\<close>

record TransactionInfoDict =
  refs :: "jsnum \<rightharpoonup> ref"
  objects :: "TransactionInfo list"

definition parseInnoDbStatus :: "string \<Rightarrow> js_error + TransactionInfoDict" where
  "parseInnoDbStatus innoDbStatus =
     (let splitInnoDbStatus = str_split innoDbStatus LF;
          transactionsStartIndex =
            arr_findIndex splitInnoDbStatus
              (\<lambda>line. str_includes line ''LIST OF TRANSACTIONS FOR EACH SESSION:'')
      in case parse_loop splitInnoDbStatus transactionsStartIndex init_state of
           Inl e \<Rightarrow> Inl e
         | Inr s \<Rightarrow> Inr \<lparr>refs = st_transactions s, objects = st_store s\<rparr>)"

text \<open>\<^verbatim>\<open>transactions[k]\<close> read through the reference: the object, or nothing.\<close>

definition dict_get :: "TransactionInfoDict \<Rightarrow> jsnum \<Rightarrow> TransactionInfo option" where
  "dict_get d k = (case refs d k of None \<Rightarrow> None | Some r \<Rightarrow> Some (objects d ! r))"

section \<open>The correlator and the ranker\<close>

text \<open>
  \<^verbatim>\<open>type Process\<close> and \<^verbatim>\<open>type ProcessWithTransaction = Process & { transaction: ... }\<close>.
  The field \<^verbatim>\<open>Id\<close> is \<open>Id'\<close> here (\<open>Id\<close> is the identity relation of HOL); \<^verbatim>\<open>null\<close> is
  \<open>None\<close>.
\<close>

record Process =
  Id' :: jsnum
  User :: string
  Host :: string
  db :: "string option"
  Command :: string
  Time :: jsnum
  State :: string
  Info :: string
  Progress :: jsnum

record ProcessWithTransaction = Process +
  transaction :: "TransactionInfo option"

text \<open>
  The callback of \<^verbatim>\<open>processList.map\<close> in \<^verbatim>\<open>getServerSideProps\<close>:
  \<^verbatim>\<open>{ ...process, transaction: innoDbStatus[process.Id] || null }\<close>. An object is never
  falsy, so \<^verbatim>\<open>|| null\<close> only turns a missing entry into \<^verbatim>\<open>null\<close>.
\<close>

definition attach_transaction :: "TransactionInfoDict \<Rightarrow> Process \<Rightarrow> ProcessWithTransaction" where
  "attach_transaction innoDbStatus process =
     \<lparr>Id' = Id' process, User = User process, Host = Host process, db = db process,
      Command = Command process, Time = Time process, State = State process,
      Info = Info process, Progress = Progress process,
      transaction = dict_get innoDbStatus (Id' process)\<rparr>"

definition processListWithTransaction ::
    "TransactionInfoDict \<Rightarrow> Process list \<Rightarrow> ProcessWithTransaction list" where
  "processListWithTransaction innoDbStatus processList =
     map (attach_transaction innoDbStatus) processList"

text \<open>
  \<^verbatim>\<open>x - y\<close> on numbers. The difference of two finite doubles is rounded, and can
  overflow to an infinity; its sign is the sign of the exact difference, and the sort
  reads nothing but the sign.
\<close>

fun js_sub :: "jsnum \<Rightarrow> jsnum \<Rightarrow> jsnum" where
  "js_sub NaN y = NaN"
| "js_sub x NaN = NaN"
| "js_sub Infinity Infinity = NaN"
| "js_sub NegInfinity NegInfinity = NaN"
| "js_sub Infinity y = Infinity"
| "js_sub x Infinity = NegInfinity"
| "js_sub NegInfinity y = NegInfinity"
| "js_sub x NegInfinity = Infinity"
| "js_sub (Finite a) (Finite b) = Finite (a - b)"

text \<open>The comparator given to \<^verbatim>\<open>processListWithTransaction.sort\<close>.\<close>

definition compareFn :: "ProcessWithTransaction \<Rightarrow> ProcessWithTransaction \<Rightarrow> jsnum" where
  "compareFn a b =
     (if transaction a \<noteq> None \<and> transaction b = None then Finite (- 1)
      else if transaction a = None \<and> transaction b \<noteq> None then Finite 1
      else (case (transaction a, transaction b) of
              (Some ta, Some tb) \<Rightarrow> js_sub (activeTime tb) (activeTime ta)
            | _ \<Rightarrow> js_sub (Time b) (Time a)))"

section \<open>Array.prototype.sort\<close>

text \<open>
  \<^verbatim>\<open>Array.prototype.sort\<close> belongs to the language, not to this repository; it is
  modelled by what ECMAScript (2019 and later) requires of it. The sort calls the abstract
  operation \<open>SortCompare\<close>, which reads a \<open>NaN\<close> returned by the comparator as \<open>+0\<close>. When
  the comparator is a consistent comparator for the elements, the result is the stable
  sorted order: there is a permutation \<open>\<pi>\<close> of the indices with
  \<open>new[\<pi>(j)] = old[j]\<close>, with \<open>\<pi>(j) < \<pi>(k)\<close> whenever \<open>old[j]\<close> compares below \<open>old[k]\<close>,
  and whenever \<open>j < k\<close> and the two compare equal. When the comparator is not consistent
  the order is implementation-defined: the elements are still only moved, and nothing is
  said about where. \<open>Array_sort comparefn old \<pi> new\<close> says that \<open>new\<close> is a result the
  language admits for \<open>old\<close>, by the permutation \<open>\<pi>\<close>.
\<close>

definition SortCompare :: "('a \<Rightarrow> 'a \<Rightarrow> jsnum) \<Rightarrow> 'a \<Rightarrow> 'a \<Rightarrow> jsnum" where
  "SortCompare comparefn x y = (case comparefn x y of NaN \<Rightarrow> Finite 0 | v \<Rightarrow> v)"

fun lt0 :: "jsnum \<Rightarrow> bool" where
  "lt0 NegInfinity = True"
| "lt0 (Finite r) = (r < 0)"
| "lt0 v = False"

fun gt0 :: "jsnum \<Rightarrow> bool" where
  "gt0 Infinity = True"
| "gt0 (Finite r) = (0 < r)"
| "gt0 v = False"

fun eq0 :: "jsnum \<Rightarrow> bool" where
  "eq0 (Finite r) = (r = 0)"
| "eq0 v = False"

definition consistent_comparator :: "('a \<Rightarrow> 'a \<Rightarrow> jsnum) \<Rightarrow> 'a set \<Rightarrow> bool" where
  "consistent_comparator c S \<longleftrightarrow>
     (\<forall>a \<in> S. eq0 (c a a)) \<and>
     (\<forall>a \<in> S. \<forall>b \<in> S. eq0 (c a b) \<longrightarrow> eq0 (c b a)) \<and>
     (\<forall>a \<in> S. \<forall>b \<in> S. \<forall>d \<in> S. eq0 (c a b) \<and> eq0 (c b d) \<longrightarrow> eq0 (c a d)) \<and>
     (\<forall>a \<in> S. \<forall>b \<in> S. \<forall>d \<in> S. lt0 (c a b) \<and> lt0 (c b d) \<longrightarrow> lt0 (c a d)) \<and>
     (\<forall>a \<in> S. \<forall>b \<in> S. \<forall>d \<in> S. gt0 (c a b) \<and> gt0 (c b d) \<longrightarrow> gt0 (c a d))"

definition Array_sort :: "('a \<Rightarrow> 'a \<Rightarrow> jsnum) \<Rightarrow> 'a list \<Rightarrow> (nat \<Rightarrow> nat) \<Rightarrow> 'a list \<Rightarrow> bool" where
  "Array_sort comparefn old \<pi> new \<longleftrightarrow>
     length new = length old \<and>
     bij_betw \<pi> {..<length old} {..<length old} \<and>
     (\<forall>j < length old. new ! \<pi> j = old ! j) \<and>
     (consistent_comparator (SortCompare comparefn) (set old) \<longrightarrow>
        (\<forall>j < length old. \<forall>k < length old.
           lt0 (SortCompare comparefn (old ! j) (old ! k)) \<longrightarrow> \<pi> j < \<pi> k) \<and>
        (\<forall>j < length old. \<forall>k < length old.
           j < k \<and> eq0 (SortCompare comparefn (old ! j) (old ! k)) \<longrightarrow> \<pi> j < \<pi> k))"

subsection \<open>Two sorting algorithms\<close>

text \<open>
  A stable insertion sort, on the places of the elements: the indices \<open>0, 1, ...\<close> of
  the input are inserted in turn, each before the first index already there whose
  element compares above its own. \<open>stable_places\<close> lists the old indices in their new
  order, \<open>stable_sort\<close> is the sorted array, and \<open>place_of j\<close> is the new place of the old
  index \<open>j\<close>. For a consistent comparator this is the result of the sort, whatever the
  engine (lemmas \<open>stable_sort_admitted\<close> and \<open>Array_sort_unique\<close>).
\<close>

fun insert_place :: "('a \<Rightarrow> 'a \<Rightarrow> jsnum) \<Rightarrow> 'a list \<Rightarrow> nat \<Rightarrow> nat list \<Rightarrow> nat list" where
  "insert_place c old j [] = [j]"
| "insert_place c old j (i # is) =
     (if lt0 (c (old ! j) (old ! i)) then j # i # is else i # insert_place c old j is)"

definition stable_places :: "('a \<Rightarrow> 'a \<Rightarrow> jsnum) \<Rightarrow> 'a list \<Rightarrow> nat \<Rightarrow> nat list" where
  "stable_places c old m = foldl (\<lambda>is j. insert_place c old j is) [] [0..<m]"

definition stable_sort :: "('a \<Rightarrow> 'a \<Rightarrow> jsnum) \<Rightarrow> 'a list \<Rightarrow> 'a list" where
  "stable_sort comparefn old =
     map (\<lambda>q. old ! q) (stable_places (SortCompare comparefn) old (length old))"

fun place_of :: "nat \<Rightarrow> nat list \<Rightarrow> nat" where
  "place_of j [] = 0"
| "place_of j (q # qs) = (if q = j then 0 else Suc (place_of j qs))"

text \<open>
  A binary insertion sort, the method by which TimSort (the algorithm of V8, the engine of
  Node.js) sorts an array of fewer than 64 elements: the longest run at the start of the
  array that is ascending (no element compares below its predecessor) or strictly
  descending (then it is reversed) is kept, and each further element is inserted into the
  sorted part at the place a binary search finds. It computes the order such an engine
  leaves an array in, also when the comparator is not consistent. Its result is one that
  \<open>Array_sort\<close> admits, for every comparator (lemma \<open>binary_insertion_sort_admitted\<close>).
\<close>

fun ascending_run :: "('a \<Rightarrow> 'a \<Rightarrow> jsnum) \<Rightarrow> 'a \<Rightarrow> 'a list \<Rightarrow> nat" where
  "ascending_run c previous [] = 0"
| "ascending_run c previous (x # xs) =
     (if lt0 (c x previous) then 0 else Suc (ascending_run c x xs))"

fun descending_run :: "('a \<Rightarrow> 'a \<Rightarrow> jsnum) \<Rightarrow> 'a \<Rightarrow> 'a list \<Rightarrow> nat" where
  "descending_run c previous [] = 0"
| "descending_run c previous (x # xs) =
     (if lt0 (c x previous) then Suc (descending_run c x xs) else 0)"

fun make_run :: "('a \<Rightarrow> 'a \<Rightarrow> jsnum) \<Rightarrow> 'a list \<Rightarrow> 'a list \<times> 'a list" where
  "make_run c (x # y # rest) =
     (if lt0 (c y x)
      then (let r = 2 + descending_run c y rest
            in (rev (take r (x # y # rest)), drop r (x # y # rest)))
      else (let r = 2 + ascending_run c y rest
            in (take r (x # y # rest), drop r (x # y # rest))))"
| "make_run c xs = (xs, [])"

function binary_place :: "('a \<Rightarrow> 'a \<Rightarrow> jsnum) \<Rightarrow> 'a \<Rightarrow> 'a list \<Rightarrow> nat \<Rightarrow> nat \<Rightarrow> nat" where
  "binary_place c pivot xs left right =
     (if left < right then
        (let mid = left + (right - left) div 2
         in if lt0 (c pivot (xs ! mid)) then binary_place c pivot xs left mid
            else binary_place c pivot xs (mid + 1) right)
      else left)"
  by pat_completeness auto
termination
  by (relation "measure (\<lambda>(c, pivot, xs, left, right). right - left)") auto

declare binary_place.simps [simp del]

definition binary_insert :: "('a \<Rightarrow> 'a \<Rightarrow> jsnum) \<Rightarrow> 'a list \<Rightarrow> 'a \<Rightarrow> 'a list" where
  "binary_insert c xs pivot =
     (let left = binary_place c pivot xs 0 (length xs)
      in take left xs @ pivot # drop left xs)"

definition binary_insertion_sort :: "('a \<Rightarrow> 'a \<Rightarrow> jsnum) \<Rightarrow> 'a list \<Rightarrow> 'a list" where
  "binary_insertion_sort comparefn xs =
     (case make_run (SortCompare comparefn) xs of
        (run, rest) \<Rightarrow> foldl (binary_insert (SortCompare comparefn)) run rest)"

text \<open>
  The same sort on the indices of the array: \<open>binary_places\<close> lists the old indices in
  their new order.
\<close>

definition binary_places :: "('a \<Rightarrow> 'a \<Rightarrow> jsnum) \<Rightarrow> 'a list \<Rightarrow> nat list" where
  "binary_places comparefn old =
     binary_insertion_sort (\<lambda>i k. comparefn (old ! i) (old ! k)) [0..<length old]"

section \<open>Vocabulary of the statements\<close>

text \<open>The three tests of the loop on a line, and the number read from a start line.\<close>

definition is_terminator :: "string \<Rightarrow> bool" where
  "is_terminator line = str_startsWith line ''--------''"

definition is_start :: "string \<Rightarrow> bool" where
  "is_start line = str_startsWith line ''---TRANSACTION''"

definition is_id :: "string \<Rightarrow> bool" where
  "is_id line = str_startsWith line ''MariaDB thread id''"

definition activeTime_of :: "string \<Rightarrow> jsnum" where
  "activeTime_of line = parseInt (str_slice line (str_indexOf line '', ACTIVE'' + 8))"

text \<open>A report has the section marker when one of its lines contains it.\<close>

definition has_marker :: "string \<Rightarrow> bool" where
  "has_marker innoDbStatus \<longleftrightarrow>
     (\<exists>line \<in> set (str_split innoDbStatus LF).
        str_includes line ''LIST OF TRANSACTIONS FOR EACH SESSION:'')"

text \<open>
  The lines the loop reads: from the first line with the marker, up to the first
  terminator line, which is left out.
\<close>

definition scanned_lines :: "string \<Rightarrow> string list" where
  "scanned_lines innoDbStatus =
     (let splitInnoDbStatus = str_split innoDbStatus LF;
          transactionsStartIndex =
            arr_findIndex splitInnoDbStatus
              (\<lambda>line. str_includes line ''LIST OF TRANSACTIONS FOR EACH SESSION:'')
      in takeWhile (\<lambda>line. \<not> is_terminator line)
           (drop (nat transactionsStartIndex) splitInnoDbStatus))"

definition final_state :: "string \<Rightarrow> parse_state" where
  "final_state innoDbStatus = fold loop_body (scanned_lines innoDbStatus) init_state"

text \<open>
  What holds between two iterations of the loop: the current object exists, and every key
  is bound to an object that is not younger than the current one and that holds an id
  line with that key.
\<close>

definition loop_invariant :: "parse_state \<Rightarrow> bool" where
  "loop_invariant s \<longleftrightarrow>
     st_transaction s < length (st_store s) \<and>
     (\<forall>k a. st_transactions s k = Some a \<longrightarrow>
        a \<le> st_transaction s \<and>
        (\<exists>l \<in> set (info (st_store s ! a)). is_id l \<and> threadId_of l = k))"

text \<open>
  Two old indices are in order when the element of the second does not compare below the
  element of the first and, if the two compare equal, the first index is the smaller.
\<close>

definition in_order :: "('a \<Rightarrow> 'a \<Rightarrow> jsnum) \<Rightarrow> 'a list \<Rightarrow> nat \<Rightarrow> nat \<Rightarrow> bool" where
  "in_order c old i k \<longleftrightarrow>
     \<not> lt0 (c (old ! k) (old ! i)) \<and> (eq0 (c (old ! i) (old ! k)) \<longrightarrow> i < k)"

text \<open>
  The key the comparator reads of a session, and the place of a session in the order the
  comparator describes when no key is \<open>NaN\<close>: sessions with a transaction first, then
  greater keys first.
\<close>

definition sort_key :: "ProcessWithTransaction \<Rightarrow> jsnum" where
  "sort_key x = (case transaction x of Some t \<Rightarrow> activeTime t | None \<Rightarrow> Time x)"

definition rank :: "ProcessWithTransaction \<Rightarrow> int \<times> int \<times> real" where
  "rank x =
     (if transaction x = None then 1 else 0,
      case sort_key x of
        Infinity \<Rightarrow> (- 1, 0)
      | Finite r \<Rightarrow> (0, - r)
      | NegInfinity \<Rightarrow> (1, 0)
      | NaN \<Rightarrow> (2, 0))"

text \<open>
  Two sessions have equal comparator keys: both have a transaction, of equal
  \<open>activeTime\<close>, or neither has one and their \<open>Time\<close> is equal.
\<close>

definition same_key :: "ProcessWithTransaction \<Rightarrow> ProcessWithTransaction \<Rightarrow> bool" where
  "same_key a b \<longleftrightarrow>
     (case (transaction a, transaction b) of
        (Some ta, Some tb) \<Rightarrow> activeTime ta = activeTime tb
      | (None, None) \<Rightarrow> Time a = Time b
      | _ \<Rightarrow> False)"

definition same_descriptor :: "ProcessWithTransaction \<Rightarrow> Process \<Rightarrow> bool" where
  "same_descriptor x p \<longleftrightarrow>
     Id' x = Id' p \<and> User x = User p \<and> Host x = Host p \<and> db x = db p \<and>
     Command x = Command p \<and> Time x = Time p \<and> State x = State p \<and> Info x = Info p \<and>
     Progress x = Progress p"



section \<open>Example reports and session lists\<close>

text \<open>Scenario A of the specification, and the same report without its id line.\<close>

definition scenario_A :: string where
  "scenario_A =
     ''LIST OF TRANSACTIONS FOR EACH SESSION:'' @ [LF] @
     ''---TRANSACTION 1, ACTIVE 5 sec'' @ [LF] @
     ''MariaDB thread id 7, foo'' @ [LF] @
     ''--------'' @ [LF]"

definition scenario_B :: string where
  "scenario_B =
     ''LIST OF TRANSACTIONS FOR EACH SESSION:'' @ [LF] @
     ''---TRANSACTION 1, ACTIVE 5 sec'' @ [LF] @
     ''--------'' @ [LF]"

text \<open>A transaction that has not started: its start line has no \<^verbatim>\<open>, ACTIVE\<close>.\<close>

definition not_started_report :: string where
  "not_started_report =
     ''LIST OF TRANSACTIONS FOR EACH SESSION:'' @ [LF] @
     ''---TRANSACTION 421977478863512, not started'' @ [LF] @
     ''MariaDB thread id 7, foo'' @ [LF] @
     ''--------'' @ [LF]"

text \<open>One block with two id lines.\<close>

definition two_ids_report :: string where
  "two_ids_report =
     ''LIST OF TRANSACTIONS FOR EACH SESSION:'' @ [LF] @
     ''---TRANSACTION 1, ACTIVE 5 sec'' @ [LF] @
     ''MariaDB thread id 7, foo'' @ [LF] @
     ''MariaDB thread id 8, bar'' @ [LF] @
     ''--------'' @ [LF]"

text \<open>Two blocks: the first has no id line, the second has lines after its id line.\<close>

definition two_blocks_report :: string where
  "two_blocks_report =
     ''LIST OF TRANSACTIONS FOR EACH SESSION:'' @ [LF] @
     ''---TRANSACTION 1, ACTIVE 5 sec'' @ [LF] @
     ''0 lock struct(s), heap size 1128'' @ [LF] @
     ''---TRANSACTION 2, ACTIVE 3 sec'' @ [LF] @
     ''MariaDB thread id 9, localhost root'' @ [LF] @
     ''show engine innodb status'' @ [LF] @
     ''--------'' @ [LF]"

text \<open>A report with no marker line.\<close>

definition no_marker_report :: string where
  "no_marker_report =
     ''TRANSACTIONS'' @ [LF] @
     ''---TRANSACTION 1, ACTIVE 5 sec'' @ [LF] @
     ''--------'' @ [LF]"

text \<open>Sessions that differ in their id, their elapsed time and their transaction.\<close>

definition session :: "real \<Rightarrow> real \<Rightarrow> Process" where
  "session i t =
     \<lparr>Id' = Finite i, User = ''root'', Host = ''localhost'', db = None, Command = ''Query'',
      Time = Finite t, State = ''executing'', Info = ''select 1'', Progress = Finite 0\<rparr>"

definition enriched :: "real \<Rightarrow> real \<Rightarrow> TransactionInfo option \<Rightarrow> ProcessWithTransaction" where
  "enriched i t tx =
     \<lparr>Id' = Finite i, User = ''root'', Host = ''localhost'', db = None, Command = ''Query'',
      Time = Finite t, State = ''executing'', Info = ''select 1'', Progress = Finite 0,
      transaction = tx\<rparr>"

definition tx_active :: "jsnum \<Rightarrow> TransactionInfo option" where
  "tx_active v = Some \<lparr>activeTime = v, info = []\<rparr>"

text \<open>Scenario C: sessions 1 and 7, and the dictionary parsed from scenario A.\<close>

definition scenario_C_sessions :: "Process list" where
  "scenario_C_sessions = [session 1 10, session 7 20]"

definition scenario_A_dict :: TransactionInfoDict where
  "scenario_A_dict =
     \<lparr>refs = [Finite 7 \<mapsto> 1],
      objects =
        [\<lparr>activeTime = Finite (- 1), info = [''LIST OF TRANSACTIONS FOR EACH SESSION:'']\<rparr>,
         \<lparr>activeTime = Finite 5,
          info = [''---TRANSACTION 1, ACTIVE 5 sec'', ''MariaDB thread id 7, foo'']\<rparr>]\<rparr>"

definition scenario_C_ranked :: "ProcessWithTransaction list" where
  "scenario_C_ranked =
     [enriched 7 20
        (Some \<lparr>activeTime = Finite 5,
               info = [''---TRANSACTION 1, ACTIVE 5 sec'', ''MariaDB thread id 7, foo'']\<rparr>),
      enriched 1 10 None]"

text \<open>A session without transaction before one with a transaction.\<close>

definition mixed_input :: "ProcessWithTransaction list" where
  "mixed_input = [enriched 1 10 None, enriched 7 20 (tx_active (Finite 5))]"

definition mixed_output :: "ProcessWithTransaction list" where
  "mixed_output = [enriched 7 20 (tx_active (Finite 5)), enriched 1 10 None]"

text \<open>Two transactions of 3 seconds around one of 5 seconds.\<close>

definition tie_input :: "ProcessWithTransaction list" where
  "tie_input =
     [enriched 1 0 (tx_active (Finite 3)), enriched 2 0 (tx_active (Finite 5)),
      enriched 3 0 (tx_active (Finite 3))]"

definition tie_output :: "ProcessWithTransaction list" where
  "tie_output =
     [enriched 2 0 (tx_active (Finite 5)), enriched 1 0 (tx_active (Finite 3)),
      enriched 3 0 (tx_active (Finite 3))]"

text \<open>
  A report of seven sessions, three of which have a transaction that has not started, and
  the seven sessions in the order of their ids. \<open>seven_dict\<close> is what the parser returns
  on the report: a transaction that has not started has the \<open>activeTime\<close> \<open>NaN\<close>. The fifth
  and the seventh session both have a transaction of 3 seconds.
\<close>

definition seven_report :: string where
  "seven_report =
     ''LIST OF TRANSACTIONS FOR EACH SESSION:'' @ [LF] @
     ''---TRANSACTION 421977478863501, not started'' @ [LF] @
     ''MariaDB thread id 1, localhost root'' @ [LF] @
     ''---TRANSACTION 421977478863502, not started'' @ [LF] @
     ''MariaDB thread id 2, localhost root'' @ [LF] @
     ''---TRANSACTION 9101, ACTIVE 2 sec'' @ [LF] @
     ''MariaDB thread id 3, localhost root'' @ [LF] @
     ''---TRANSACTION 421977478863504, not started'' @ [LF] @
     ''MariaDB thread id 4, localhost root'' @ [LF] @
     ''---TRANSACTION 9102, ACTIVE 3 sec'' @ [LF] @
     ''MariaDB thread id 5, localhost root'' @ [LF] @
     ''---TRANSACTION 9103, ACTIVE 4 sec'' @ [LF] @
     ''MariaDB thread id 6, localhost root'' @ [LF] @
     ''---TRANSACTION 9104, ACTIVE 3 sec'' @ [LF] @
     ''MariaDB thread id 7, localhost root'' @ [LF] @
     ''--------'' @ [LF]"

definition seven_dict :: TransactionInfoDict where
  "seven_dict =
     \<lparr>refs =
        [Finite 1 \<mapsto> 1, Finite 2 \<mapsto> 2, Finite 3 \<mapsto> 3, Finite 4 \<mapsto> 4,
         Finite 5 \<mapsto> 5, Finite 6 \<mapsto> 6, Finite 7 \<mapsto> 7],
      objects =
        [\<lparr>activeTime = Finite (- 1), info = [''LIST OF TRANSACTIONS FOR EACH SESSION:'']\<rparr>,
         \<lparr>activeTime = NaN,
          info = [''---TRANSACTION 421977478863501, not started'',
                  ''MariaDB thread id 1, localhost root'']\<rparr>,
         \<lparr>activeTime = NaN,
          info = [''---TRANSACTION 421977478863502, not started'',
                  ''MariaDB thread id 2, localhost root'']\<rparr>,
         \<lparr>activeTime = Finite 2,
          info = [''---TRANSACTION 9101, ACTIVE 2 sec'',
                  ''MariaDB thread id 3, localhost root'']\<rparr>,
         \<lparr>activeTime = NaN,
          info = [''---TRANSACTION 421977478863504, not started'',
                  ''MariaDB thread id 4, localhost root'']\<rparr>,
         \<lparr>activeTime = Finite 3,
          info = [''---TRANSACTION 9102, ACTIVE 3 sec'',
                  ''MariaDB thread id 5, localhost root'']\<rparr>,
         \<lparr>activeTime = Finite 4,
          info = [''---TRANSACTION 9103, ACTIVE 4 sec'',
                  ''MariaDB thread id 6, localhost root'']\<rparr>,
         \<lparr>activeTime = Finite 3,
          info = [''---TRANSACTION 9104, ACTIVE 3 sec'',
                  ''MariaDB thread id 7, localhost root'']\<rparr>]\<rparr>"

definition seven_sessions :: "Process list" where
  "seven_sessions =
     [session 1 0, session 2 0, session 3 0, session 4 0, session 5 0, session 6 0,
      session 7 0]"

section \<open>The loop as a fold\<close>

lemma findIndex_from_found:
  "\<exists>x \<in> set xs. P x \<Longrightarrow>
     i \<le> findIndex_from P xs i \<and> findIndex_from P xs i < i + int (length xs)"
proof (induction xs arbitrary: i)
  case Nil
  then show ?case by simp
next
  case (Cons a xs)
  show ?case
  proof (cases "P a")
    case True
    then show ?thesis by simp
  next
    case False
    with Cons.prems have "\<exists>x \<in> set xs. P x" by simp
    from Cons.IH [OF this, of "i + 1"] False show ?thesis by simp
  qed
qed

lemma findIndex_from_none:
  "\<forall>x \<in> set xs. \<not> P x \<Longrightarrow> findIndex_from P xs i = - 1"
  by (induction xs arbitrary: i) auto

lemma arr_findIndex_none:
  "\<forall>x \<in> set xs. \<not> P x \<Longrightarrow> arr_findIndex xs P = - 1"
  by (simp add: arr_findIndex_def findIndex_from_none)

lemma arr_findIndex_found:
  "\<exists>x \<in> set xs. P x \<Longrightarrow> 0 \<le> arr_findIndex xs P"
  using findIndex_from_found [of xs P 0] by (simp add: arr_findIndex_def)

text \<open>Started before the array, the loop reads \<^verbatim>\<open>undefined\<close> and throws.\<close>

lemma parse_loop_negative:
  "i < 0 \<Longrightarrow> parse_loop ls i s = Inl TypeError"
  by (simp add: parse_loop.simps arr_get_def)

text \<open>Started inside the array, it folds the body over the lines up to the terminator.\<close>

lemma parse_loop_fold:
  "0 \<le> i \<Longrightarrow>
   parse_loop ls i s =
     Inr (fold loop_body (takeWhile (\<lambda>line. \<not> is_terminator line) (drop (nat i) ls)) s)"
proof (induction ls i s rule: parse_loop.induct)
  case (1 ls i s)
  show ?case
  proof (cases "i < int (length ls)")
    case False
    with "1.prems" show ?thesis by (simp add: parse_loop.simps)
  next
    case True
    with "1.prems" have get: "arr_get ls i = Some (ls ! nat i)"
      by (simp add: arr_get_def)
    from True "1.prems" have dr: "drop (nat i) ls = ls ! nat i # drop (nat (i + 1)) ls"
      by (simp add: Cons_nth_drop_Suc nat_add_distrib)
    show ?thesis
    proof (cases "str_startsWith (ls ! nat i) ''--------''")
      case t: True
      show ?thesis
        by (subst parse_loop.simps) (simp add: True get t dr is_terminator_def)
    next
      case f: False
      have "parse_loop ls (i + 1) (loop_body (ls ! nat i) s) =
            Inr (fold loop_body (takeWhile (\<lambda>line. \<not> is_terminator line)
                   (drop (nat (i + 1)) ls)) (loop_body (ls ! nat i) s))"
        using "1.IH" [OF True get f] "1.prems" by simp
      then show ?thesis
        by (subst parse_loop.simps) (simp add: True get f dr is_terminator_def)
    qed
  qed
qed

lemma parse_without_marker:
  assumes "\<not> has_marker innoDbStatus"
  shows "parseInnoDbStatus innoDbStatus = Inl TypeError"
proof -
  from assms have "arr_findIndex (str_split innoDbStatus LF)
          (\<lambda>line. str_includes line ''LIST OF TRANSACTIONS FOR EACH SESSION:'') = - 1"
    by (intro arr_findIndex_none) (simp add: has_marker_def)
  then show ?thesis
    by (simp add: parseInnoDbStatus_def parse_loop_negative)
qed

lemma parse_with_marker:
  assumes "has_marker innoDbStatus"
  shows "parseInnoDbStatus innoDbStatus =
           Inr \<lparr>refs = st_transactions (final_state innoDbStatus),
                objects = st_store (final_state innoDbStatus)\<rparr>"
proof -
  from assms have "0 \<le> arr_findIndex (str_split innoDbStatus LF)
          (\<lambda>line. str_includes line ''LIST OF TRANSACTIONS FOR EACH SESSION:'')"
    unfolding has_marker_def by (rule arr_findIndex_found)
  then show ?thesis
    by (simp add: parseInnoDbStatus_def parse_loop_fold final_state_def scanned_lines_def Let_def)
qed

section \<open>The loop body, by the kind of line\<close>

lemma str_startsWith_append: "str_startsWith s p \<longleftrightarrow> (\<exists>rest. s = p @ rest)"
proof
  assume "str_startsWith s p"
  then have "s = p @ drop (length p) s"
    by (metis append_take_drop_id str_startsWith_def)
  then show "\<exists>rest. s = p @ rest" ..
next
  assume "\<exists>rest. s = p @ rest"
  then show "str_startsWith s p"
    by (auto simp: str_startsWith_def)
qed

lemma start_not_id: "is_start line \<Longrightarrow> \<not> is_id line"
  by (cases line) (auto simp: is_start_def is_id_def str_startsWith_def)

lemma loop_body_start:
  "is_start line \<Longrightarrow>
   loop_body line s =
     s\<lparr>st_store := st_store s @ [\<lparr>activeTime = activeTime_of line, info = [line]\<rparr>],
       st_transaction := length (st_store s)\<rparr>"
  using start_not_id [of line]
  by (simp add: loop_body_def new_transaction_def push_line_def is_start_def is_id_def
      activeTime_of_def Let_def)

lemma loop_body_id:
  "is_id line \<Longrightarrow>
   loop_body line s =
     s\<lparr>st_store := (st_store s)[st_transaction s :=
          (st_store s ! st_transaction s)\<lparr>info := info (st_store s ! st_transaction s) @ [line]\<rparr>],
       st_transactions := (st_transactions s)(threadId_of line \<mapsto> st_transaction s)\<rparr>"
  using start_not_id [of line]
  by (auto simp add: loop_body_def assign_thread_def push_line_def is_start_def is_id_def Let_def)

lemma loop_body_other:
  "\<not> is_start line \<Longrightarrow> \<not> is_id line \<Longrightarrow>
   loop_body line s =
     s\<lparr>st_store := (st_store s)[st_transaction s :=
          (st_store s ! st_transaction s)\<lparr>info := info (st_store s ! st_transaction s) @ [line]\<rparr>]\<rparr>"
  by (simp add: loop_body_def push_line_def is_start_def is_id_def Let_def)

text \<open>
  A start line without \<^verbatim>\<open>, ACTIVE\<close>: \<^verbatim>\<open>indexOf\<close> gives \<open>-1\<close>, the slice starts at 7, inside
  the word \<^verbatim>\<open>---TRANSACTION\<close>, and \<^verbatim>\<open>parseInt\<close> finds no digit.
\<close>

lemma activeTime_of_no_ACTIVE:
  assumes "is_start line" and "str_indexOf line '', ACTIVE'' = - 1"
  shows "activeTime_of line = NaN"
proof -
  from assms(1) obtain rest where "line = ''---TRANSACTION'' @ rest"
    by (auto simp: is_start_def str_startsWith_append)
  then have "str_slice line 7 = ''SACTION'' @ rest"
    by (simp add: str_slice_def)
  then show ?thesis
    by (simp add: activeTime_of_def assms(2) parseInt_def isWhiteSpace_def isRadixDigit_def
        digitValue_def)
qed

section \<open>Invariants of the loop\<close>

lemma loop_invariant_init: "loop_invariant init_state"
  by (simp add: loop_invariant_def init_state_def)

lemma loop_invariant_body:
  assumes "loop_invariant s"
  shows "loop_invariant (loop_body line s)"
proof -
  let ?s' = "loop_body line s"
  from assms have cur: "st_transaction s < length (st_store s)"
    by (simp add: loop_invariant_def)
  have bound: "a \<le> st_transaction s \<and>
      (\<exists>l \<in> set (info (st_store s ! a)). is_id l \<and> threadId_of l = k)"
    if "st_transactions s k = Some a" for k a
    using assms that by (simp add: loop_invariant_def)
  consider (start) "is_start line" | (ident) "is_id line" "\<not> is_start line"
    | (other) "\<not> is_start line" "\<not> is_id line"
    by blast
  then have "st_transaction ?s' < length (st_store ?s')"
    using cur by cases (simp_all add: loop_body_start loop_body_id loop_body_other)
  moreover have "a \<le> st_transaction ?s' \<and>
      (\<exists>l \<in> set (info (st_store ?s' ! a)). is_id l \<and> threadId_of l = k)"
    if b: "st_transactions ?s' k = Some a" for k a
  proof (cases "is_start line")
    case True
    with b have "st_transactions s k = Some a"
      by (simp add: loop_body_start)
    from bound [OF this] cur show ?thesis
      by (simp add: loop_body_start True nth_append)
  next
    case False
    show ?thesis
    proof (cases "is_id line \<and> k = threadId_of line")
      case True
      with b have "a = st_transaction s" by (simp add: loop_body_id)
      with cur True show ?thesis by (simp add: loop_body_id)
    next
      case nb: False
      with b False have "st_transactions s k = Some a"
        by (cases "is_id line") (auto simp: loop_body_id loop_body_other)
      from bound [OF this] cur False show ?thesis
        by (cases "is_id line") (auto simp: loop_body_id loop_body_other nth_list_update)
    qed
  qed
  ultimately show ?thesis
    unfolding loop_invariant_def by blast
qed

lemma loop_invariant_fold: "loop_invariant s \<Longrightarrow> loop_invariant (fold loop_body ls s)"
  by (induction ls arbitrary: s) (simp_all add: loop_invariant_body)

lemma loop_invariant_final: "loop_invariant (final_state innoDbStatus)"
  unfolding final_state_def by (rule loop_invariant_fold) (rule loop_invariant_init)

text \<open>Every start line makes one object, and the current object is the youngest.\<close>

lemma length_store_fold:
  "length (st_store (fold loop_body ls s)) = length (st_store s) + length (filter is_start ls)"
proof (induction ls arbitrary: s)
  case Nil
  show ?case by simp
next
  case (Cons l ls)
  show ?case
  proof (cases "is_start l")
    case True
    then show ?thesis by (simp add: Cons.IH loop_body_start)
  next
    case False
    then show ?thesis
      by (cases "is_id l") (simp_all add: Cons.IH loop_body_id loop_body_other)
  qed
qed

lemma youngest_body:
  "Suc (st_transaction s) = length (st_store s) \<Longrightarrow>
   Suc (st_transaction (loop_body line s)) = length (st_store (loop_body line s))"
  by (cases "is_start line"; cases "is_id line")
     (simp_all add: loop_body_start loop_body_id loop_body_other)

lemma youngest_fold:
  "Suc (st_transaction s) = length (st_store s) \<Longrightarrow>
   Suc (st_transaction (fold loop_body ls s)) = length (st_store (fold loop_body ls s))"
  by (induction ls arbitrary: s) (simp_all add: youngest_body)

lemma transaction_fold_init:
  "st_transaction (fold loop_body ls init_state) = length (filter is_start ls)"
proof -
  have "Suc (st_transaction (fold loop_body ls init_state)) =
          length (st_store (fold loop_body ls init_state))"
    by (rule youngest_fold) (simp add: init_state_def)
  then show ?thesis
    by (simp add: length_store_fold init_state_def)
qed

section \<open>A run of lines without start line\<close>

lemma transaction_fold_no_start:
  "\<forall>l \<in> set ls. \<not> is_start l \<Longrightarrow> st_transaction (fold loop_body ls s) = st_transaction s"
proof (induction ls arbitrary: s)
  case Nil
  show ?case by simp
next
  case (Cons l ls)
  then show ?case
    by (cases "is_id l") (simp_all add: loop_body_id loop_body_other)
qed

text \<open>The lines of the run go to the current object, in order.\<close>

lemma store_fold_no_start:
  assumes "\<forall>l \<in> set ls. \<not> is_start l" and "st_transaction s < length (st_store s)"
  shows "st_store (fold loop_body ls s) =
           (st_store s)[st_transaction s :=
              (st_store s ! st_transaction s)\<lparr>info := info (st_store s ! st_transaction s) @ ls\<rparr>]"
  using assms
proof (induction ls arbitrary: s)
  case Nil
  then show ?case by simp
next
  case (Cons l ls)
  let ?s1 = "loop_body l s"
  from Cons.prems have nl: "\<not> is_start l" and rest: "\<forall>l \<in> set ls. \<not> is_start l" by simp_all
  have s1: "st_transaction ?s1 = st_transaction s"
    "st_store ?s1 = (st_store s)[st_transaction s :=
          (st_store s ! st_transaction s)\<lparr>info := info (st_store s ! st_transaction s) @ [l]\<rparr>]"
    using nl by (cases "is_id l"; simp add: loop_body_id loop_body_other)+
  have "st_transaction ?s1 < length (st_store ?s1)"
    using Cons.prems(2) s1 by simp
  from Cons.IH [OF rest this] show ?case
    using Cons.prems(2) by (simp add: s1)
qed

text \<open>The keys of the id lines of the run are bound to the current object.\<close>

lemma transactions_fold_no_start:
  assumes "\<forall>l \<in> set ls. \<not> is_start l"
  shows "st_transactions (fold loop_body ls s) k =
           (if \<exists>l \<in> set ls. is_id l \<and> threadId_of l = k then Some (st_transaction s)
            else st_transactions s k)"
  using assms
proof (induction ls arbitrary: s)
  case Nil
  then show ?case by simp
next
  case (Cons l ls)
  from Cons.prems have nl: "\<not> is_start l" and rest: "\<forall>l \<in> set ls. \<not> is_start l" by simp_all
  show ?case
  proof (cases "is_id l")
    case True
    then show ?thesis
      using Cons.IH [OF rest, of "loop_body l s"] nl by (auto simp: loop_body_id)
  next
    case False
    then show ?thesis
      using Cons.IH [OF rest, of "loop_body l s"] nl by (auto simp: loop_body_other)
  qed
qed

section \<open>What later lines cannot change\<close>

text \<open>Objects older than the current one are never written again, and no key is bound to them.\<close>

lemma fold_monotone:
  assumes "st_transaction s < length (st_store s)"
  shows "st_transaction s \<le> st_transaction (fold loop_body ls s) \<and>
         st_transaction (fold loop_body ls s) < length (st_store (fold loop_body ls s)) \<and>
         (\<forall>a < st_transaction s. st_store (fold loop_body ls s) ! a = st_store s ! a) \<and>
         (\<forall>k a. st_transactions (fold loop_body ls s) k = Some a \<longrightarrow>
            st_transactions s k = Some a \<or> st_transaction s \<le> a)"
  using assms
proof (induction ls arbitrary: s)
  case Nil
  then show ?case by simp
next
  case (Cons l ls)
  let ?s1 = "loop_body l s"
  have s1: "st_transaction s \<le> st_transaction ?s1 \<and>
        st_transaction ?s1 < length (st_store ?s1) \<and>
        (\<forall>a < st_transaction s. st_store ?s1 ! a = st_store s ! a) \<and>
        (\<forall>k a. st_transactions ?s1 k = Some a \<longrightarrow>
            st_transactions s k = Some a \<or> st_transaction s \<le> a)"
  proof (cases "is_start l")
    case True
    with Cons.prems show ?thesis by (auto simp: loop_body_start nth_append)
  next
    case False
    with Cons.prems show ?thesis
      by (cases "is_id l") (auto simp: loop_body_id loop_body_other)
  qed
  from s1 have "st_transaction ?s1 < length (st_store ?s1)" by blast
  from Cons.IH [OF this] s1 show ?case
    by (simp del: fold_simps add: fold_Cons) (metis le_trans less_le_trans)
qed

lemma transactions_fold_unbound:
  "\<forall>l \<in> set ls. is_id l \<longrightarrow> threadId_of l \<noteq> k \<Longrightarrow>
   st_transactions (fold loop_body ls s) k = st_transactions s k"
proof (induction ls arbitrary: s)
  case Nil
  show ?case by simp
next
  case (Cons l ls)
  consider (start) "is_start l" | (ident) "is_id l" "\<not> is_start l"
    | (other) "\<not> is_start l" "\<not> is_id l"
    by blast
  then show ?case
    using Cons by cases (auto simp: loop_body_start loop_body_id loop_body_other)
qed

text \<open>
  What follows a block (nothing, or lines from a start line on) leaves the objects made so
  far as they are, and binds no key to them.
\<close>

lemma fold_tail:
  assumes "post = [] \<or> is_start (hd post)" and "st_transaction s < length (st_store s)"
  shows "(\<forall>a < length (st_store s). st_store (fold loop_body post s) ! a = st_store s ! a) \<and>
         (\<forall>k a. st_transactions (fold loop_body post s) k = Some a \<longrightarrow>
            st_transactions s k = Some a \<or> length (st_store s) \<le> a)"
proof (cases post)
  case Nil
  then show ?thesis by simp
next
  case (Cons p rest)
  with assms(1) have p: "is_start p" by simp
  let ?s1 = "loop_body p s"
  have s1: "st_transaction ?s1 = length (st_store s)"
    "st_transactions ?s1 = st_transactions s"
    "\<And>a. a < length (st_store s) \<Longrightarrow> st_store ?s1 ! a = st_store s ! a"
    "st_transaction ?s1 < length (st_store ?s1)"
    using p by (simp_all add: loop_body_start nth_append)
  from fold_monotone [OF s1(4), of rest] show ?thesis
    by (simp add: Cons s1)
qed

section \<open>Blocks\<close>

text \<open>
  A block that a start line opens: its object holds the start line and the lines up to the
  next start line, and only the id lines of the block bind a key to it.
\<close>

lemma block_state:
  assumes "ls = pre @ start # blk @ post"
    and "is_start start"
    and "\<forall>l \<in> set blk. \<not> is_start l"
    and "post = [] \<or> is_start (hd post)"
    and "a = Suc (length (filter is_start pre))"
  shows "st_store (fold loop_body ls init_state) ! a =
           \<lparr>activeTime = activeTime_of start, info = start # blk\<rparr>"
    and "st_transactions (fold loop_body ls init_state) k = Some a \<Longrightarrow>
           \<exists>l \<in> set blk. is_id l \<and> threadId_of l = k"
proof -
  let ?s1 = "fold loop_body pre init_state"
  let ?s2 = "loop_body start ?s1"
  let ?s3 = "fold loop_body blk ?s2"
  let ?s4 = "fold loop_body post ?s3"
  have all: "fold loop_body ls init_state = ?s4"
    by (simp add: assms(1))
  have inv1: "loop_invariant ?s1" by (rule loop_invariant_fold) (rule loop_invariant_init)
  have cur1: "st_transaction ?s1 = length (filter is_start pre)"
    by (rule transaction_fold_init)
  have len1: "length (st_store ?s1) = a"
    by (simp add: length_store_fold init_state_def assms(5))
  have s2: "st_transaction ?s2 = a" "st_transactions ?s2 = st_transactions ?s1"
    "st_store ?s2 = st_store ?s1 @ [\<lparr>activeTime = activeTime_of start, info = [start]\<rparr>]"
    using assms(2) len1 by (simp_all add: loop_body_start)
  have cur2: "st_transaction ?s2 < length (st_store ?s2)"
    by (simp add: s2 len1)
  have store3: "st_store ?s3 ! a = \<lparr>activeTime = activeTime_of start, info = start # blk\<rparr>"
    using store_fold_no_start [OF assms(3) cur2] len1 by (simp add: s2 nth_append)
  have len3: "length (st_store ?s3) = Suc a"
  proof -
    from assms(3) have "filter is_start blk = []" by (simp add: filter_empty_conv)
    then show ?thesis
      using length_store_fold [of blk ?s2] by (simp add: s2 len1)
  qed
  have cur3: "st_transaction ?s3 < length (st_store ?s3)"
    using transaction_fold_no_start [OF assms(3), of ?s2] by (simp add: s2 len3)
  note tail = fold_tail [OF assms(4) cur3]
  from tail len3 have "st_store ?s4 ! a = st_store ?s3 ! a" by simp
  with store3 all
  show "st_store (fold loop_body ls init_state) ! a =
           \<lparr>activeTime = activeTime_of start, info = start # blk\<rparr>"
    by simp
  assume "st_transactions (fold loop_body ls init_state) k = Some a"
  with all have "st_transactions ?s4 k = Some a" by simp
  with tail len3 have b3: "st_transactions ?s3 k = Some a" by fastforce
  show "\<exists>l \<in> set blk. is_id l \<and> threadId_of l = k"
  proof (rule ccontr)
    assume "\<not> ?thesis"
    with b3 transactions_fold_no_start [OF assms(3), of ?s2 k]
    have "st_transactions ?s1 k = Some a" by (simp add: s2 split: if_splits)
    with inv1 have "a \<le> st_transaction ?s1" by (simp add: loop_invariant_def)
    with cur1 assms(5) show False by simp
  qed
qed

text \<open>
  An id line and the lines after it, up to the next start line: they end the lines of the
  object that was current at the id line, and the key of the id line stays bound to that
  object unless a later id line binds it again.
\<close>

lemma id_block_state:
  assumes "ls = pre @ idl # blk @ post"
    and "is_id idl"
    and "\<forall>l \<in> set blk. \<not> is_start l"
    and "post = [] \<or> is_start (hd post)"
    and "r = length (filter is_start pre)"
  shows "info (st_store (fold loop_body ls init_state) ! r) =
           info (st_store (fold loop_body pre init_state) ! r) @ idl # blk"
    and "\<forall>l \<in> set post. is_id l \<longrightarrow> threadId_of l \<noteq> threadId_of idl \<Longrightarrow>
           st_transactions (fold loop_body ls init_state) (threadId_of idl) = Some r"
proof -
  let ?s1 = "fold loop_body pre init_state"
  let ?s3 = "fold loop_body (idl # blk) ?s1"
  let ?s4 = "fold loop_body post ?s3"
  have all: "fold loop_body ls init_state = ?s4"
    by (simp add: assms(1))
  have ns: "\<forall>l \<in> set (idl # blk). \<not> is_start l"
    using assms(2,3) start_not_id by auto
  have cur1: "st_transaction ?s1 = r"
    by (simp add: transaction_fold_init assms(5))
  have inv1: "loop_invariant ?s1" by (rule loop_invariant_fold) (rule loop_invariant_init)
  then have lt1: "st_transaction ?s1 < length (st_store ?s1)"
    by (simp add: loop_invariant_def)
  have store3: "st_store ?s3 =
      (st_store ?s1)[r := (st_store ?s1 ! r)\<lparr>info := info (st_store ?s1 ! r) @ idl # blk\<rparr>]"
    using store_fold_no_start [OF ns lt1] by (simp only: cur1)
  have cur3: "st_transaction ?s3 = r"
    using transaction_fold_no_start [OF ns, of ?s1] by (simp only: cur1)
  have lt3: "st_transaction ?s3 < length (st_store ?s3)"
    using lt1 by (simp only: cur3 store3 cur1 length_list_update)
  have b3: "st_transactions ?s3 (threadId_of idl) = Some r"
    using transactions_fold_no_start [OF ns, of ?s1 "threadId_of idl"] assms(2)
    by (simp add: cur1)
  note tail = fold_tail [OF assms(4) lt3]
  from tail lt3 have e1: "st_store ?s4 ! r = st_store ?s3 ! r"
    by (simp only: cur3)
  from lt1 have "r < length (st_store ?s1)"
    by (simp only: cur1)
  then have e2: "info (st_store ?s3 ! r) = info (st_store ?s1 ! r) @ idl # blk"
    by (subst store3) simp
  show "info (st_store (fold loop_body ls init_state) ! r) =
           info (st_store (fold loop_body pre init_state) ! r) @ idl # blk"
    by (simp only: all e1 e2)
  assume "\<forall>l \<in> set post. is_id l \<longrightarrow> threadId_of l \<noteq> threadId_of idl"
  from transactions_fold_unbound [OF this, of ?s3] b3
  show "st_transactions (fold loop_body ls init_state) (threadId_of idl) = Some r"
    by (simp only: all)
qed

section \<open>The example reports, line by line\<close>

lemma plain_lines:
  "\<not> is_start ''LIST OF TRANSACTIONS FOR EACH SESSION:''"
  "\<not> is_id ''LIST OF TRANSACTIONS FOR EACH SESSION:''"
  "\<not> is_start ''0 lock struct(s), heap size 1128''"
  "\<not> is_id ''0 lock struct(s), heap size 1128''"
  "\<not> is_start ''show engine innodb status''"
  "\<not> is_id ''show engine innodb status''"
  by (simp_all add: is_start_def is_id_def str_startsWith_def)

lemma start_lines:
  "is_start ''---TRANSACTION 1, ACTIVE 5 sec''"
  "is_start ''---TRANSACTION 2, ACTIVE 3 sec''"
  "is_start ''---TRANSACTION 421977478863512, not started''"
  by (simp_all add: is_start_def str_startsWith_def)

lemma id_lines:
  "is_id ''MariaDB thread id 7, foo''"
  "is_id ''MariaDB thread id 8, bar''"
  "is_id ''MariaDB thread id 9, localhost root''"
  by (simp_all add: is_id_def str_startsWith_def)

lemma id_lines_not_start:
  "\<not> is_start ''MariaDB thread id 7, foo''"
  "\<not> is_start ''MariaDB thread id 8, bar''"
  "\<not> is_start ''MariaDB thread id 9, localhost root''"
  by (simp_all add: is_start_def str_startsWith_def)

lemma parseInt_5_sec: "parseInt '' 5 sec'' = Finite 5"
  by (simp add: parseInt_def isWhiteSpace_def isRadixDigit_def digitValue_def numberValue_def)

lemma parseInt_3_sec: "parseInt '' 3 sec'' = Finite 3"
  by (simp add: parseInt_def isWhiteSpace_def isRadixDigit_def digitValue_def numberValue_def)

lemma active_times:
  "activeTime_of ''---TRANSACTION 1, ACTIVE 5 sec'' = Finite 5"
  "activeTime_of ''---TRANSACTION 2, ACTIVE 3 sec'' = Finite 3"
  by (simp_all add: activeTime_of_def str_indexOf_def str_startsWith_def str_slice_def
      parseInt_5_sec parseInt_3_sec)

lemma no_ACTIVE_not_started:
  "str_indexOf ''---TRANSACTION 421977478863512, not started'' '', ACTIVE'' = - 1"
  by (simp add: str_indexOf_def str_startsWith_def)

lemma active_time_not_started:
  "activeTime_of ''---TRANSACTION 421977478863512, not started'' = NaN"
  by (rule activeTime_of_no_ACTIVE [OF start_lines(3) no_ACTIVE_not_started])

lemma thread_ids:
  "threadId_of ''MariaDB thread id 7, foo'' = Finite 7"
  "threadId_of ''MariaDB thread id 8, bar'' = Finite 8"
  "threadId_of ''MariaDB thread id 9, localhost root'' = Finite 9"
  by (simp_all add: threadId_of_def arr_get_def parseInt_def isWhiteSpace_def isRadixDigit_def
      digitValue_def numberValue_def)

lemmas line_facts =
  plain_lines start_lines id_lines id_lines_not_start active_times active_time_not_started
  thread_ids

lemmas body_by_kind = loop_body_start loop_body_id loop_body_other

subsection \<open>Scenario A\<close>

lemma split_A: "str_split scenario_A LF =
  [''LIST OF TRANSACTIONS FOR EACH SESSION:'', ''---TRANSACTION 1, ACTIVE 5 sec'',
   ''MariaDB thread id 7, foo'', ''--------'', []]"
  by (simp add: scenario_A_def)

lemma marker_A: "has_marker scenario_A"
  by (simp add: has_marker_def split_A str_startsWith_def)

lemma scanned_A: "scanned_lines scenario_A =
  [''LIST OF TRANSACTIONS FOR EACH SESSION:'', ''---TRANSACTION 1, ACTIVE 5 sec'',
   ''MariaDB thread id 7, foo'']"
  by (simp add: scanned_lines_def split_A arr_findIndex_def is_terminator_def str_startsWith_def)

lemma final_A: "final_state scenario_A =
   \<lparr>st_store = objects scenario_A_dict, st_transactions = refs scenario_A_dict,
     st_transaction = 1\<rparr>"
  by (simp add: final_state_def scanned_A init_state_def scenario_A_dict_def
      body_by_kind line_facts)

lemma parse_A: "parseInnoDbStatus scenario_A = Inr scenario_A_dict"
  by (simp add: parse_with_marker [OF marker_A] final_A)

subsection \<open>Scenario B\<close>

lemma split_B: "str_split scenario_B LF =
  [''LIST OF TRANSACTIONS FOR EACH SESSION:'', ''---TRANSACTION 1, ACTIVE 5 sec'',
   ''--------'', []]"
  by (simp add: scenario_B_def)

lemma marker_B: "has_marker scenario_B"
  by (simp add: has_marker_def split_B str_startsWith_def)

lemma scanned_B: "scanned_lines scenario_B =
  [''LIST OF TRANSACTIONS FOR EACH SESSION:'', ''---TRANSACTION 1, ACTIVE 5 sec'']"
  by (simp add: scanned_lines_def split_B arr_findIndex_def is_terminator_def str_startsWith_def)

lemma final_B: "final_state scenario_B =
   \<lparr>st_store =
      [\<lparr>activeTime = Finite (- 1), info = [''LIST OF TRANSACTIONS FOR EACH SESSION:'']\<rparr>,
       \<lparr>activeTime = Finite 5, info = [''---TRANSACTION 1, ACTIVE 5 sec'']\<rparr>],
     st_transactions = Map.empty,
     st_transaction = 1\<rparr>"
  by (simp add: final_state_def scanned_B init_state_def body_by_kind line_facts)

subsection \<open>The transaction that has not started\<close>

lemma split_not_started: "str_split not_started_report LF =
      [''LIST OF TRANSACTIONS FOR EACH SESSION:'',
       ''---TRANSACTION 421977478863512, not started'',
       ''MariaDB thread id 7, foo'', ''--------'', []]"
  by (simp add: not_started_report_def)

lemma marker_not_started: "has_marker not_started_report"
  by (simp add: has_marker_def split_not_started str_startsWith_def)

lemma scanned_not_started: "scanned_lines not_started_report =
      [''LIST OF TRANSACTIONS FOR EACH SESSION:'',
       ''---TRANSACTION 421977478863512, not started'',
       ''MariaDB thread id 7, foo'']"
  by (simp add: scanned_lines_def split_not_started arr_findIndex_def is_terminator_def
      str_startsWith_def)

lemma final_not_started: "final_state not_started_report =
      \<lparr>st_store =
         [\<lparr>activeTime = Finite (- 1), info = [''LIST OF TRANSACTIONS FOR EACH SESSION:'']\<rparr>,
          \<lparr>activeTime = NaN,
           info = [''---TRANSACTION 421977478863512, not started'',
                   ''MariaDB thread id 7, foo'']\<rparr>],
       st_transactions = [Finite 7 \<mapsto> 1],
       st_transaction = 1\<rparr>"
  by (simp add: final_state_def scanned_not_started init_state_def body_by_kind line_facts)

subsection \<open>Two id lines in one block\<close>

lemma split_two_ids: "str_split two_ids_report LF =
  [''LIST OF TRANSACTIONS FOR EACH SESSION:'', ''---TRANSACTION 1, ACTIVE 5 sec'',
   ''MariaDB thread id 7, foo'', ''MariaDB thread id 8, bar'', ''--------'', []]"
  by (simp add: two_ids_report_def)

lemma marker_two_ids: "has_marker two_ids_report"
  by (simp add: has_marker_def split_two_ids str_startsWith_def)

lemma scanned_two_ids: "scanned_lines two_ids_report =
  [''LIST OF TRANSACTIONS FOR EACH SESSION:'', ''---TRANSACTION 1, ACTIVE 5 sec'',
   ''MariaDB thread id 7, foo'', ''MariaDB thread id 8, bar'']"
  by (simp add: scanned_lines_def split_two_ids arr_findIndex_def is_terminator_def
      str_startsWith_def)

lemma final_two_ids: "final_state two_ids_report =
   \<lparr>st_store =
      [\<lparr>activeTime = Finite (- 1), info = [''LIST OF TRANSACTIONS FOR EACH SESSION:'']\<rparr>,
       \<lparr>activeTime = Finite 5,
        info = [''---TRANSACTION 1, ACTIVE 5 sec'', ''MariaDB thread id 7, foo'',
                ''MariaDB thread id 8, bar'']\<rparr>],
     st_transactions = [Finite 7 \<mapsto> 1, Finite 8 \<mapsto> 1],
     st_transaction = 1\<rparr>"
  by (simp add: final_state_def scanned_two_ids init_state_def body_by_kind line_facts)

subsection \<open>Two blocks\<close>

lemma split_two_blocks: "str_split two_blocks_report LF =
  [''LIST OF TRANSACTIONS FOR EACH SESSION:'', ''---TRANSACTION 1, ACTIVE 5 sec'',
   ''0 lock struct(s), heap size 1128'', ''---TRANSACTION 2, ACTIVE 3 sec'',
   ''MariaDB thread id 9, localhost root'', ''show engine innodb status'', ''--------'', []]"
  by (simp add: two_blocks_report_def)

lemma marker_two_blocks: "has_marker two_blocks_report"
  by (simp add: has_marker_def split_two_blocks str_startsWith_def)

lemma scanned_two_blocks: "scanned_lines two_blocks_report =
  [''LIST OF TRANSACTIONS FOR EACH SESSION:'', ''---TRANSACTION 1, ACTIVE 5 sec'',
   ''0 lock struct(s), heap size 1128'', ''---TRANSACTION 2, ACTIVE 3 sec'',
   ''MariaDB thread id 9, localhost root'', ''show engine innodb status'']"
  by (simp add: scanned_lines_def split_two_blocks arr_findIndex_def is_terminator_def
      str_startsWith_def)

subsection \<open>No marker\<close>

lemma split_no_marker: "str_split no_marker_report LF =
  [''TRANSACTIONS'', ''---TRANSACTION 1, ACTIVE 5 sec'', ''--------'', []]"
  by (simp add: no_marker_report_def)

lemma no_marker: "\<not> has_marker no_marker_report"
  by (simp add: has_marker_def split_no_marker str_startsWith_def)

section \<open>The parser on a report without the section marker\<close>

text \<open>
  Claim C1. The claim: for every text with no line containing the section marker, the
  parser returns an empty mapping and never fails. The code: \<^verbatim>\<open>findIndex\<close> returns
  \<open>-1\<close>, the loop starts at index \<open>-1\<close>, reads \<^verbatim>\<open>undefined\<close> there, and
  \<^verbatim>\<open>line.startsWith\<close> throws. For every such text the parser raises a \<^verbatim>\<open>TypeError\<close>,
  and returns no mapping.
\<close>

theorem no_marker_raises_TypeError:
  assumes "\<forall>line \<in> set (str_split innoDbStatus LF).
             \<not> str_includes line ''LIST OF TRANSACTIONS FOR EACH SESSION:''"
  shows "parseInnoDbStatus innoDbStatus = Inl TypeError"
  using assms by (intro parse_without_marker) (simp add: has_marker_def)

theorem no_marker_raises_TypeError_witness:
  "parseInnoDbStatus no_marker_report = Inl TypeError"
  using no_marker_raises_TypeError [of no_marker_report] no_marker
  by (simp add: has_marker_def)

section \<open>The active time of a start line without the pattern\<close>

text \<open>
  Claim C2. The claim: a start line without \<^verbatim>\<open>, ACTIVE <integer> sec\<close> records the
  sentinel \<open>-1\<close>, and parsing does not throw. The code: when the line has no
  \<^verbatim>\<open>, ACTIVE\<close>, \<^verbatim>\<open>indexOf\<close> returns \<open>-1\<close>, the text from position 7 on is parsed, and
  the new object gets the \<open>activeTime\<close> \<open>NaN\<close>; nothing is thrown. So it is for the start
  line of a transaction that has not started, whose entry in the result has the
  \<open>activeTime\<close> \<open>NaN\<close>.
\<close>

theorem start_line_without_ACTIVE_records_NaN:
  assumes "is_start line" and "str_indexOf line '', ACTIVE'' = - 1"
  shows "activeTime (st_store (loop_body line s) ! st_transaction (loop_body line s)) = NaN \<and>
         (\<exists>d. parseInnoDbStatus not_started_report = Inr d \<and>
            dict_get d (Finite 7) =
              Some \<lparr>activeTime = NaN,
                    info = [''---TRANSACTION 421977478863512, not started'',
                            ''MariaDB thread id 7, foo'']\<rparr>)"
proof (rule conjI)
  show "activeTime (st_store (loop_body line s) ! st_transaction (loop_body line s)) = NaN"
    using assms by (simp add: loop_body_start activeTime_of_no_ACTIVE)
next
  show "\<exists>d. parseInnoDbStatus not_started_report = Inr d \<and>
            dict_get d (Finite 7) =
              Some \<lparr>activeTime = NaN,
                    info = [''---TRANSACTION 421977478863512, not started'',
                            ''MariaDB thread id 7, foo'']\<rparr>"
    by (simp add: parse_with_marker [OF marker_not_started] final_not_started dict_get_def)
qed

theorem start_line_without_ACTIVE_records_NaN_witness:
  "activeTime (st_store (loop_body ''---TRANSACTION 421977478863512, not started'' init_state) !
      st_transaction (loop_body ''---TRANSACTION 421977478863512, not started'' init_state)) = NaN"
  by (rule conjunct1 [OF start_line_without_ACTIVE_records_NaN
        [OF start_lines(3) no_ACTIVE_not_started]])

section \<open>Keys and the objects they refer to\<close>

text \<open>
  Claim C3, as stated: no two distinct keys of the mapping refer to the same
  \<open>TransactionInfo\<close>. It fails on a block with two id lines: both keys are bound to the one
  object of the block.
\<close>

theorem two_keys_one_object_counterexample:
  "\<exists>d. parseInnoDbStatus two_ids_report = Inr d \<and> Finite 7 \<noteq> Finite 8 \<and>
       refs d (Finite 7) = Some 1 \<and> refs d (Finite 8) = Some 1"
  by (simp add: parse_with_marker [OF marker_two_ids] final_two_ids)

text \<open>
  Claim C3, amended. In every mapping the parser returns, a key refers to an object that
  exists and that holds, among its lines, an id line with that key. Hence an object
  without id line among its lines is referred to by no key (a block in which no id line
  appears is absent from the mapping), and two keys that refer to the same object are
  equal when the id lines of that object all carry one thread id.
\<close>

theorem keys_come_from_id_lines:
  assumes "parseInnoDbStatus innoDbStatus = Inr d"
  shows "(\<forall>k a. refs d k = Some a \<longrightarrow>
            a < length (objects d) \<and>
            (\<exists>l \<in> set (info (objects d ! a)). is_id l \<and> threadId_of l = k)) \<and>
         (\<forall>a. (\<forall>l \<in> set (info (objects d ! a)). \<not> is_id l) \<longrightarrow> a \<notin> ran (refs d)) \<and>
         (\<forall>k k' a. refs d k = Some a \<and> refs d k' = Some a \<and>
            (\<forall>l \<in> set (info (objects d ! a)). \<forall>l' \<in> set (info (objects d ! a)).
               is_id l \<and> is_id l' \<longrightarrow> threadId_of l = threadId_of l') \<longrightarrow> k = k')"
proof -
  have m: "has_marker innoDbStatus"
  proof (rule ccontr)
    assume "\<not> has_marker innoDbStatus"
    from parse_without_marker [OF this] assms show False by simp
  qed
  from parse_with_marker [OF m] assms
  have d: "refs d = st_transactions (final_state innoDbStatus)"
    "objects d = st_store (final_state innoDbStatus)"
    by auto
  have key: "a < length (objects d) \<and>
            (\<exists>l \<in> set (info (objects d ! a)). is_id l \<and> threadId_of l = k)"
    if "refs d k = Some a" for k a
    using loop_invariant_final [of innoDbStatus] that unfolding loop_invariant_def d by fastforce
  have "\<forall>a. (\<forall>l \<in> set (info (objects d ! a)). \<not> is_id l) \<longrightarrow> a \<notin> ran (refs d)"
    using key by (fastforce simp: ran_def)
  moreover have "\<forall>k k' a. refs d k = Some a \<and> refs d k' = Some a \<and>
            (\<forall>l \<in> set (info (objects d ! a)). \<forall>l' \<in> set (info (objects d ! a)).
               is_id l \<and> is_id l' \<longrightarrow> threadId_of l = threadId_of l') \<longrightarrow> k = k'"
  proof (intro allI impI)
    fix k k' a
    assume h: "refs d k = Some a \<and> refs d k' = Some a \<and>
            (\<forall>l \<in> set (info (objects d ! a)). \<forall>l' \<in> set (info (objects d ! a)).
               is_id l \<and> is_id l' \<longrightarrow> threadId_of l = threadId_of l')"
    from key [of k a] h obtain l
      where l: "l \<in> set (info (objects d ! a))" "is_id l" "threadId_of l = k"
      by blast
    from key [of k' a] h obtain l'
      where l': "l' \<in> set (info (objects d ! a))" "is_id l'" "threadId_of l' = k'"
      by blast
    from h l l' show "k = k'" by blast
  qed
  ultimately show ?thesis using key by blast
qed

theorem keys_come_from_id_lines_witness:
  "parseInnoDbStatus scenario_A = Inr scenario_A_dict \<and>
   refs scenario_A_dict (Finite 7) = Some 1 \<and>
   1 < length (objects scenario_A_dict) \<and>
   (\<exists>l \<in> set (info (objects scenario_A_dict ! 1)). is_id l \<and> threadId_of l = Finite 7)"
proof -
  have r: "refs scenario_A_dict (Finite 7) = Some 1"
    by (simp add: scenario_A_dict_def)
  from keys_come_from_id_lines [OF parse_A]
  have "\<forall>k a. refs scenario_A_dict k = Some a \<longrightarrow>
            a < length (objects scenario_A_dict) \<and>
            (\<exists>l \<in> set (info (objects scenario_A_dict ! a)). is_id l \<and> threadId_of l = k)"
    by (rule conjunct1)
  with r have "1 < length (objects scenario_A_dict) \<and>
      (\<exists>l \<in> set (info (objects scenario_A_dict ! 1)). is_id l \<and> threadId_of l = Finite 7)"
    by blast
  with r parse_A show ?thesis by blast
qed

section \<open>Scenario A\<close>

text \<open>
  Claim C7, as stated: on the report of scenario A the entry of key 7 has three detail
  lines. It has not: no result of the parser on this report has an entry of three lines
  under key 7.
\<close>

theorem scenario_A_three_lines_counterexample:
  "\<not> (\<exists>d t. parseInnoDbStatus scenario_A = Inr d \<and> dict_get d (Finite 7) = Some t \<and>
            length (info t) = 3)"
  by (simp add: parse_A dict_get_def scenario_A_dict_def)

text \<open>
  Claim C7, amended. On the report of scenario A the parser returns the mapping with the
  single key 7, whose \<open>activeTime\<close> is 5 and whose lines are the two lines between the
  marker line and the terminator: the start line and the id line. The marker line went to
  the object that the start line replaced.
\<close>

theorem scenario_A_result:
  "parseInnoDbStatus scenario_A = Inr scenario_A_dict \<and>
   dom (refs scenario_A_dict) = {Finite 7} \<and>
   dict_get scenario_A_dict (Finite 7) =
     Some \<lparr>activeTime = Finite 5,
           info = [''---TRANSACTION 1, ACTIVE 5 sec'', ''MariaDB thread id 7, foo'']\<rparr>"
  by (simp add: parse_A) (simp add: scenario_A_dict_def dict_get_def)

section \<open>Blocks without id line\<close>

text \<open>
  Claim C8. In a report with the section marker, take a block of the lines the parser
  reads: a start line, then lines that are neither start lines nor id lines, up to the
  next start line or the end of what is read (the terminator, or the end of the text).
  The parser returns a mapping, the object of the block (the start lines before it give
  its index) holds the lines of the block, and no key refers to it. On scenario B, the
  report of scenario A without its id line, the mapping is empty.
\<close>

theorem block_without_id_line_is_dropped:
  assumes "has_marker innoDbStatus"
    and "scanned_lines innoDbStatus = pre @ start # blk @ post"
    and "is_start start"
    and "\<forall>l \<in> set blk. \<not> is_start l \<and> \<not> is_id l"
    and "post = [] \<or> is_start (hd post)"
  shows "(\<exists>d. parseInnoDbStatus innoDbStatus = Inr d \<and>
            objects d ! Suc (length (filter is_start pre)) =
              \<lparr>activeTime = activeTime_of start, info = start # blk\<rparr> \<and>
            Suc (length (filter is_start pre)) \<notin> ran (refs d)) \<and>
         parseInnoDbStatus scenario_B =
           Inr \<lparr>refs = Map.empty,
                objects =
                  [\<lparr>activeTime = Finite (- 1),
                    info = [''LIST OF TRANSACTIONS FOR EACH SESSION:'']\<rparr>,
                   \<lparr>activeTime = Finite 5, info = [''---TRANSACTION 1, ACTIVE 5 sec'']\<rparr>]\<rparr>"
proof (rule conjI)
  let ?a = "Suc (length (filter is_start pre))"
  let ?d = "\<lparr>refs = st_transactions (final_state innoDbStatus),
             objects = st_store (final_state innoDbStatus)\<rparr>"
  from assms(4) have ns: "\<forall>l \<in> set blk. \<not> is_start l" by blast
  have "objects ?d ! ?a = \<lparr>activeTime = activeTime_of start, info = start # blk\<rparr>"
    using block_state(1) [OF assms(2) assms(3) ns assms(5) refl]
    by (simp add: final_state_def)
  moreover have "?a \<notin> ran (refs ?d)"
  proof
    assume "?a \<in> ran (refs ?d)"
    then obtain k where "st_transactions (final_state innoDbStatus) k = Some ?a"
      by (auto simp: ran_def)
    from block_state(2) [OF assms(2) assms(3) ns assms(5) refl this [unfolded final_state_def]]
    show False using assms(4) by blast
  qed
  ultimately show "\<exists>d. parseInnoDbStatus innoDbStatus = Inr d \<and>
            objects d ! ?a = \<lparr>activeTime = activeTime_of start, info = start # blk\<rparr> \<and>
            ?a \<notin> ran (refs d)"
    using parse_with_marker [OF assms(1)] by blast
next
  show "parseInnoDbStatus scenario_B =
           Inr \<lparr>refs = Map.empty,
                objects =
                  [\<lparr>activeTime = Finite (- 1),
                    info = [''LIST OF TRANSACTIONS FOR EACH SESSION:'']\<rparr>,
                   \<lparr>activeTime = Finite 5, info = [''---TRANSACTION 1, ACTIVE 5 sec'']\<rparr>]\<rparr>"
    by (simp add: parse_with_marker [OF marker_B] final_B)
qed

theorem block_without_id_line_is_dropped_witness:
  "\<exists>d. parseInnoDbStatus two_blocks_report = Inr d \<and>
       objects d ! Suc 0 =
         \<lparr>activeTime = Finite 5,
          info = [''---TRANSACTION 1, ACTIVE 5 sec'', ''0 lock struct(s), heap size 1128'']\<rparr> \<and>
       Suc 0 \<notin> ran (refs d)"
proof -
  have sc: "scanned_lines two_blocks_report =
      [''LIST OF TRANSACTIONS FOR EACH SESSION:''] @ ''---TRANSACTION 1, ACTIVE 5 sec'' #
      [''0 lock struct(s), heap size 1128''] @
      [''---TRANSACTION 2, ACTIVE 3 sec'', ''MariaDB thread id 9, localhost root'',
       ''show engine innodb status'']"
    by (simp add: scanned_two_blocks)
  have b: "\<forall>l \<in> set [''0 lock struct(s), heap size 1128'']. \<not> is_start l \<and> \<not> is_id l"
    by (simp add: plain_lines)
  have p: "[''---TRANSACTION 2, ACTIVE 3 sec'', ''MariaDB thread id 9, localhost root'',
       ''show engine innodb status''] = [] \<or>
     is_start (hd [''---TRANSACTION 2, ACTIVE 3 sec'', ''MariaDB thread id 9, localhost root'',
       ''show engine innodb status''])"
    by (simp add: start_lines)
  have "\<exists>d. parseInnoDbStatus two_blocks_report = Inr d \<and>
            objects d ! Suc (length (filter is_start [''LIST OF TRANSACTIONS FOR EACH SESSION:''])) =
              \<lparr>activeTime = activeTime_of ''---TRANSACTION 1, ACTIVE 5 sec'',
               info = ''---TRANSACTION 1, ACTIVE 5 sec'' # [''0 lock struct(s), heap size 1128'']\<rparr> \<and>
            Suc (length (filter is_start [''LIST OF TRANSACTIONS FOR EACH SESSION:''])) \<notin> ran (refs d)"
    by (rule conjunct1 [OF block_without_id_line_is_dropped
          [OF marker_two_blocks sc start_lines(1) b p]])
  then show ?thesis
    by (simp add: plain_lines active_times)
qed

section \<open>Lines after the id line\<close>

text \<open>
  Claim C9. In a report with the section marker, take an id line among the lines the
  parser reads, and the lines after it up to the next start line or the end of what is
  read. When the loop has read them, the key of the id line is bound to the object that
  was current at the id line (the start lines before the id line give its index), and
  the lines of that object end with the id line followed by exactly those lines, in their
  order. The object has the same lines in the result, where the key of the id line still
  refers to it, unless an id line of a later block has bound the same key again.
\<close>

theorem lines_after_id_line_reach_the_entry:
  assumes "has_marker innoDbStatus"
    and "scanned_lines innoDbStatus = pre @ idl # blk @ post"
    and "is_id idl"
    and "\<forall>l \<in> set blk. \<not> is_start l"
    and "post = [] \<or> is_start (hd post)"
  shows "\<exists>d front. parseInnoDbStatus innoDbStatus = Inr d \<and>
           st_transactions (fold loop_body (pre @ idl # blk) init_state) (threadId_of idl) =
             Some (length (filter is_start pre)) \<and>
           info (st_store (fold loop_body (pre @ idl # blk) init_state) !
                   length (filter is_start pre)) = front @ idl # blk \<and>
           info (objects d ! length (filter is_start pre)) = front @ idl # blk \<and>
           ((\<forall>l \<in> set post. is_id l \<longrightarrow> threadId_of l \<noteq> threadId_of idl) \<longrightarrow>
              refs d (threadId_of idl) = Some (length (filter is_start pre)))"
proof -
  let ?r = "length (filter is_start pre)"
  let ?front = "info (st_store (fold loop_body pre init_state) ! ?r)"
  let ?d = "\<lparr>refs = st_transactions (final_state innoDbStatus),
             objects = st_store (final_state innoDbStatus)\<rparr>"
  have e: "pre @ idl # blk = pre @ idl # blk @ []" "([] :: string list) = [] \<or> is_start (hd [])"
    by simp_all
  note now = id_block_state [OF e(1) assms(3) assms(4) e(2) refl]
  note st = id_block_state [OF assms(2) assms(3) assms(4) assms(5) refl]
  have "st_transactions (fold loop_body (pre @ idl # blk) init_state) (threadId_of idl) = Some ?r"
    by (rule now(2)) simp
  moreover have "info (st_store (fold loop_body (pre @ idl # blk) init_state) ! ?r) =
      ?front @ idl # blk"
    by (rule now(1))
  moreover have "info (objects ?d ! ?r) = ?front @ idl # blk"
    using st(1) by (simp add: final_state_def)
  moreover have "(\<forall>l \<in> set post. is_id l \<longrightarrow> threadId_of l \<noteq> threadId_of idl) \<longrightarrow>
              refs ?d (threadId_of idl) = Some ?r"
    using st(2) by (simp add: final_state_def)
  ultimately show ?thesis
    using parse_with_marker [OF assms(1)] by blast
qed

theorem lines_after_id_line_reach_the_entry_witness:
  "\<exists>d front. parseInnoDbStatus two_blocks_report = Inr d \<and>
     info (objects d ! Suc (Suc 0)) =
       front @ [''MariaDB thread id 9, localhost root'', ''show engine innodb status''] \<and>
     refs d (Finite 9) = Some (Suc (Suc 0))"
proof -
  have sc: "scanned_lines two_blocks_report =
      [''LIST OF TRANSACTIONS FOR EACH SESSION:'', ''---TRANSACTION 1, ACTIVE 5 sec'',
       ''0 lock struct(s), heap size 1128'', ''---TRANSACTION 2, ACTIVE 3 sec''] @
      ''MariaDB thread id 9, localhost root'' # [''show engine innodb status''] @ []"
    by (simp add: scanned_two_blocks)
  have b: "\<forall>l \<in> set [''show engine innodb status'']. \<not> is_start l"
    by (simp add: plain_lines)
  have p: "([] :: string list) = [] \<or> is_start (hd [])"
    by simp
  from lines_after_id_line_reach_the_entry [OF marker_two_blocks sc id_lines(3) b p]
  obtain d front where "parseInnoDbStatus two_blocks_report = Inr d"
    "info (objects d ! Suc (Suc 0)) =
       front @ [''MariaDB thread id 9, localhost root'', ''show engine innodb status'']"
    "refs d (Finite 9) = Some (Suc (Suc 0))"
    by (auto simp: line_facts)
  then show ?thesis by blast
qed

section \<open>The comparator\<close>

text \<open>
  When no key is \<open>NaN\<close>, the comparator orders the sessions as \<open>rank\<close> does, and so it is
  a consistent comparator.
\<close>

lemma SortCompare_lt_rank:
  assumes "sort_key a \<noteq> NaN" "sort_key b \<noteq> NaN"
  shows "lt0 (SortCompare compareFn a b) \<longleftrightarrow> rank a < rank b"
  using assms
  by (cases "transaction a"; cases "transaction b"; cases "sort_key a"; cases "sort_key b";
      simp add: SortCompare_def compareFn_def sort_key_def rank_def)

lemma SortCompare_eq_rank:
  assumes "sort_key a \<noteq> NaN" "sort_key b \<noteq> NaN"
  shows "eq0 (SortCompare compareFn a b) \<longleftrightarrow> rank a = rank b"
  using assms
  by (cases "transaction a"; cases "transaction b"; cases "sort_key a"; cases "sort_key b")
     (auto simp: SortCompare_def compareFn_def sort_key_def rank_def)

lemma SortCompare_gt_rank:
  assumes "sort_key a \<noteq> NaN" "sort_key b \<noteq> NaN"
  shows "gt0 (SortCompare compareFn a b) \<longleftrightarrow> rank b < rank a"
  using assms
  by (cases "transaction a"; cases "transaction b"; cases "sort_key a"; cases "sort_key b";
      simp add: SortCompare_def compareFn_def sort_key_def rank_def)

lemmas SortCompare_rank = SortCompare_lt_rank SortCompare_eq_rank SortCompare_gt_rank

lemma compareFn_consistent:
  assumes "\<forall>x \<in> S. sort_key x \<noteq> NaN"
  shows "consistent_comparator (SortCompare compareFn) S"
  unfolding consistent_comparator_def
proof (intro conjI ballI impI)
  fix a assume "a \<in> S"
  with assms show "eq0 (SortCompare compareFn a a)"
    by (simp add: SortCompare_rank)
next
  fix a b assume "a \<in> S" "b \<in> S" "eq0 (SortCompare compareFn a b)"
  with assms show "eq0 (SortCompare compareFn b a)"
    by (simp add: SortCompare_rank)
next
  fix a b d assume "a \<in> S" "b \<in> S" "d \<in> S"
    "eq0 (SortCompare compareFn a b) \<and> eq0 (SortCompare compareFn b d)"
  with assms show "eq0 (SortCompare compareFn a d)"
    by (simp add: SortCompare_rank)
next
  fix a b d assume "a \<in> S" "b \<in> S" "d \<in> S"
    "lt0 (SortCompare compareFn a b) \<and> lt0 (SortCompare compareFn b d)"
  with assms show "lt0 (SortCompare compareFn a d)"
    by (simp add: SortCompare_rank) (metis order.strict_trans)
next
  fix a b d assume "a \<in> S" "b \<in> S" "d \<in> S"
    "gt0 (SortCompare compareFn a b) \<and> gt0 (SortCompare compareFn b d)"
  with assms show "gt0 (SortCompare compareFn a d)"
    by (simp add: SortCompare_rank) (metis order.strict_trans)
qed

lemma not_consistent:
  assumes "a \<in> S" "b \<in> S" "d \<in> S" "eq0 (c a b)" "eq0 (c b d)" "\<not> eq0 (c a d)"
  shows "\<not> consistent_comparator c S"
  using assms unfolding consistent_comparator_def by blast

lemma js_sub_self: "js_sub v v = NaN \<or> js_sub v v = Finite 0"
  by (cases v) simp_all

text \<open>Sessions of equal keys compare equal, whatever the key.\<close>

lemma same_key_eq0:
  assumes "same_key a b"
  shows "eq0 (SortCompare compareFn a b)"
proof (cases "transaction a")
  case None
  with assms have "transaction b = None" "Time a = Time b"
    by (auto simp: same_key_def split: option.splits)
  with None js_sub_self [of "Time b"] show ?thesis
    by (auto simp: SortCompare_def compareFn_def)
next
  case (Some ta)
  with assms obtain tb where "transaction b = Some tb" "activeTime ta = activeTime tb"
    by (auto simp: same_key_def split: option.splits)
  with Some js_sub_self [of "activeTime tb"] show ?thesis
    by (auto simp: SortCompare_def compareFn_def)
qed

section \<open>Results of the sort\<close>

text \<open>Every place of the result holds an element of the input.\<close>

lemma Array_sort_position:
  assumes "Array_sort comparefn old \<pi> new" and "p < length new"
  obtains j where "j < length old" "\<pi> j = p" "new ! p = old ! j"
proof -
  from assms have len: "length new = length old"
    and bij: "bij_betw \<pi> {..<length old} {..<length old}"
    and el: "\<forall>j < length old. new ! \<pi> j = old ! j"
    by (simp_all add: Array_sort_def)
  from bij assms(2) len have "p \<in> \<pi> ` {..<length old}"
    by (simp add: bij_betw_def)
  then obtain j where "j < length old" "\<pi> j = p" by auto
  with el that show thesis by auto
qed

text \<open>
  A result given by the list \<open>ps\<close> of the new places and the list \<open>qs\<close> of the old places
  is admitted when the two lists are inverse to each other and, for a consistent
  comparator, the places respect the order and the ties.
\<close>

lemma Array_sort_checked:
  assumes n: "n = length old"
    and lp: "length ps = n"
    and rng: "list_all (\<lambda>p. p < n) ps"
    and lq: "length qs = n"
    and left: "map (\<lambda>j. qs ! (ps ! j)) [0..<n] = [0..<n]"
    and new: "new = map (\<lambda>q. old ! q) qs"
    and ord: "consistent_comparator (SortCompare comparefn) (set old) \<longrightarrow>
        list_all (\<lambda>j. list_all (\<lambda>k.
           (lt0 (SortCompare comparefn (old ! j) (old ! k)) \<longrightarrow> ps ! j < ps ! k) \<and>
           (j < k \<and> eq0 (SortCompare comparefn (old ! j) (old ! k)) \<longrightarrow> ps ! j < ps ! k))
          [0..<n]) [0..<n]"
  shows "Array_sort comparefn old (\<lambda>j. ps ! j) new"
proof -
  have inverse_at: "qs ! (ps ! j) = j" if "j < n" for j
  proof -
    from that have "map (\<lambda>j. qs ! (ps ! j)) [0..<n] ! j = qs ! (ps ! j)"
      by simp
    with left that show ?thesis by simp
  qed
  have inside: "ps ! j < n" if "j < n" for j
    using rng lp that by (simp add: list_all_length)
  have "inj_on (\<lambda>j. ps ! j) {..<n}"
    by (rule inj_on_inverseI [where g = "\<lambda>p. qs ! p"]) (simp add: inverse_at)
  moreover have "(\<lambda>j. ps ! j) ` {..<n} \<subseteq> {..<n}"
    using inside by auto
  ultimately have "(\<lambda>j. ps ! j) ` {..<n} = {..<n}"
    by (simp add: endo_inj_surj)
  with \<open>inj_on (\<lambda>j. ps ! j) {..<n}\<close> have bij: "bij_betw (\<lambda>j. ps ! j) {..<n} {..<n}"
    by (simp add: bij_betw_def)
  have el: "new ! (ps ! j) = old ! j" if "j < n" for j
    using inside [OF that] inverse_at [OF that] lq by (simp add: new)
  have order: "(\<forall>j < n. \<forall>k < n.
           lt0 (SortCompare comparefn (old ! j) (old ! k)) \<longrightarrow> ps ! j < ps ! k) \<and>
        (\<forall>j < n. \<forall>k < n.
           j < k \<and> eq0 (SortCompare comparefn (old ! j) (old ! k)) \<longrightarrow> ps ! j < ps ! k)"
    if "consistent_comparator (SortCompare comparefn) (set old)"
    using ord that by (simp add: list_all_length)
  show ?thesis
    unfolding Array_sort_def
    using bij el order lq by (simp add: n [symmetric] new)
qed

section \<open>The example lists\<close>

lemmas session_defs = enriched_def session_def tx_active_def



lemma tie_consistent: "consistent_comparator (SortCompare compareFn) (set tie_input)"
  by (rule compareFn_consistent) (simp add: tie_input_def sort_key_def session_defs)

lemma tie_sorted: "Array_sort compareFn tie_input (\<lambda>j. [1, 0, 2] ! j) tie_output"
  by (rule Array_sort_checked [where n = 3 and qs = "[1, 0, 2]"])
     (simp_all add: tie_input_def tie_output_def upt_conv_Cons SortCompare_def compareFn_def
        session_defs)

lemma scenario_C_correlated:
  "processListWithTransaction scenario_A_dict scenario_C_sessions =
     [enriched 1 10 None,
      enriched 7 20
        (Some \<lparr>activeTime = Finite 5,
               info = [''---TRANSACTION 1, ACTIVE 5 sec'', ''MariaDB thread id 7, foo'']\<rparr>)]"
  by (simp add: processListWithTransaction_def scenario_C_sessions_def attach_transaction_def
      scenario_A_dict_def dict_get_def session_defs)

lemma scenario_C_sorted:
  "Array_sort compareFn (processListWithTransaction scenario_A_dict scenario_C_sessions)
     (\<lambda>j. [1, 0] ! j) scenario_C_ranked"
  unfolding scenario_C_correlated
  by (rule Array_sort_checked [where n = 2 and qs = "[1, 0]"])
     (simp_all add: scenario_C_ranked_def upt_conv_Cons SortCompare_def compareFn_def
        session_defs)

section \<open>The sort has one result for a consistent comparator\<close>

lemma trichotomy: "lt0 v \<or> eq0 v \<or> gt0 v \<or> v = NaN"
  by (cases v) auto

lemma lt0_not_eq0: "lt0 v \<Longrightarrow> \<not> eq0 v"
  by (cases v) simp_all

lemma lt0_not_gt0: "lt0 v \<Longrightarrow> \<not> gt0 v"
  by (cases v) simp_all

lemma eq0_not_gt0: "eq0 v \<Longrightarrow> \<not> gt0 v"
  by (cases v) simp_all

lemma SortCompare_not_NaN: "SortCompare comparefn x y \<noteq> NaN"
  by (cases "comparefn x y") (simp_all add: SortCompare_def)

lemma set_insert_place: "set (insert_place c old j is) = insert j (set is)"
  by (induction "is") auto

lemma length_insert_place: "length (insert_place c old j is) = Suc (length is)"
  by (induction "is") auto

lemma distinct_insert_place: "distinct is \<Longrightarrow> j \<notin> set is \<Longrightarrow> distinct (insert_place c old j is)"
  by (induction "is") (auto simp: set_insert_place)

lemma stable_places_Suc:
  "stable_places c old (Suc m) = insert_place c old m (stable_places c old m)"
  by (simp add: stable_places_def)

lemma set_stable_places: "set (stable_places c old m) = {..<m}"
proof (induction m)
  case 0
  show ?case by (simp add: stable_places_def)
next
  case (Suc m)
  then show ?case by (simp add: stable_places_Suc set_insert_place lessThan_Suc)
qed

lemma length_stable_places: "length (stable_places c old m) = m"
proof (induction m)
  case 0
  show ?case by (simp add: stable_places_def)
next
  case (Suc m)
  then show ?case by (simp add: stable_places_Suc length_insert_place)
qed

lemma distinct_stable_places: "distinct (stable_places c old m)"
proof (induction m)
  case 0
  show ?case by (simp add: stable_places_def)
next
  case (Suc m)
  then show ?case by (simp add: stable_places_Suc distinct_insert_place set_stable_places)
qed


lemma consistent_flip:
  assumes "consistent_comparator c S" and "\<And>x y. c x y \<noteq> NaN"
    and "a \<in> S" "b \<in> S" and "lt0 (c a b)"
  shows "gt0 (c b a)"
proof -
  have "\<not> eq0 (c b a)"
  proof
    assume "eq0 (c b a)"
    with assms(1,3,4) have "eq0 (c a b)"
      unfolding consistent_comparator_def by blast
    with assms(5) show False by (simp add: lt0_not_eq0)
  qed
  moreover have "\<not> lt0 (c b a)"
  proof
    assume "lt0 (c b a)"
    with assms(1,3,4,5) have "lt0 (c a a)"
      unfolding consistent_comparator_def by blast
    moreover from assms(1,3) have "eq0 (c a a)"
      unfolding consistent_comparator_def by blast
    ultimately show False by (simp add: lt0_not_eq0)
  qed
  ultimately show ?thesis
    using trichotomy [of "c b a"] assms(2) by blast
qed

lemma consistent_flip_gt:
  assumes "consistent_comparator c S" and "\<And>x y. c x y \<noteq> NaN"
    and "a \<in> S" "b \<in> S" and "gt0 (c a b)"
  shows "lt0 (c b a)"
proof -
  have "\<not> eq0 (c b a)"
  proof
    assume "eq0 (c b a)"
    with assms(1,3,4) have "eq0 (c a b)"
      unfolding consistent_comparator_def by blast
    with assms(5) show False by (simp add: eq0_not_gt0)
  qed
  moreover have "\<not> gt0 (c b a)"
  proof
    assume "gt0 (c b a)"
    with assms(1,3,4,5) have "gt0 (c a a)"
      unfolding consistent_comparator_def by blast
    moreover from assms(1,3) have "eq0 (c a a)"
      unfolding consistent_comparator_def by blast
    ultimately show False by (simp add: eq0_not_gt0)
  qed
  ultimately show ?thesis
    using trichotomy [of "c b a"] assms(2) by blast
qed

lemma consistent_eq_lt:
  assumes "consistent_comparator c S" and "\<And>x y. c x y \<noteq> NaN"
    and "a \<in> S" "b \<in> S" "d \<in> S" and "eq0 (c a b)" and "lt0 (c b d)"
  shows "lt0 (c a d)"
proof -
  have "\<not> eq0 (c a d)"
  proof
    assume "eq0 (c a d)"
    moreover from assms(1,3,4,6) have "eq0 (c b a)"
      unfolding consistent_comparator_def by blast
    ultimately have "eq0 (c b d)"
      using assms(1,3,4,5) unfolding consistent_comparator_def by blast
    with assms(7) show False by (simp add: lt0_not_eq0)
  qed
  moreover have "\<not> gt0 (c a d)"
  proof
    assume "gt0 (c a d)"
    then have "lt0 (c d a)"
      by (rule consistent_flip_gt [OF assms(1,2,3,5)])
    with assms(1,3,4,5,7) have "lt0 (c b a)"
      unfolding consistent_comparator_def by blast
    then have "gt0 (c a b)"
      by (rule consistent_flip [OF assms(1,2,4,3)])
    with assms(6) show False by (simp add: eq0_not_gt0)
  qed
  ultimately show ?thesis
    using trichotomy [of "c a d"] assms(2) by blast
qed

lemma sorted_insert_place:
  assumes con: "consistent_comparator c (set old)" and nn: "\<And>x y. c x y \<noteq> NaN"
    and "sorted_wrt (in_order c old) is"
    and "\<forall>i \<in> set is. i < j" and "j < length old"
  shows "sorted_wrt (in_order c old) (insert_place c old j is)"
  using assms(3,4)
proof (induction "is")
  case Nil
  show ?case by simp
next
  case (Cons i rest)
  from Cons.prems(2) assms(5) have ij: "i < j" and mem: "old ! i \<in> set old" "old ! j \<in> set old"
    by simp_all
  have memx: "old ! x \<in> set old" if "x \<in> set rest" for x
  proof -
    from that Cons.prems(2) have "x < j" by simp
    with assms(5) show ?thesis by simp
  qed
  show ?case
  proof (cases "lt0 (c (old ! j) (old ! i))")
    case True
    have "in_order c old j i"
      using consistent_flip [OF con nn mem(2,1) True] True
      by (auto simp: in_order_def lt0_not_eq0 lt0_not_gt0)
    moreover have "in_order c old j x" if x: "x \<in> set rest" for x
    proof -
      from Cons.prems(1) x have r: "\<not> lt0 (c (old ! x) (old ! i))"
        by (simp add: in_order_def)
      have "\<not> lt0 (c (old ! x) (old ! j))"
      proof
        assume "lt0 (c (old ! x) (old ! j))"
        with True con memx [OF x] mem have "lt0 (c (old ! x) (old ! i))"
          unfolding consistent_comparator_def by blast
        with r show False by simp
      qed
      moreover have "\<not> eq0 (c (old ! j) (old ! x))"
      proof
        assume "eq0 (c (old ! j) (old ! x))"
        with con memx [OF x] mem have "eq0 (c (old ! x) (old ! j))"
          unfolding consistent_comparator_def by blast
        from consistent_eq_lt [OF con nn memx [OF x] mem(2,1) this True] r
        show False by simp
      qed
      ultimately show ?thesis by (simp add: in_order_def)
    qed
    ultimately show ?thesis
      using True Cons.prems(1) by simp
  next
    case False
    from Cons.prems have "sorted_wrt (in_order c old) (insert_place c old j rest)"
      by (intro Cons.IH) simp_all
    moreover have "in_order c old i j"
      using False ij by (simp add: in_order_def)
    ultimately show ?thesis
      using False Cons.prems(1) by (auto simp: set_insert_place)
  qed
qed

lemma sorted_stable_places:
  assumes "consistent_comparator c (set old)" and "\<And>x y. c x y \<noteq> NaN"
    and "m \<le> length old"
  shows "sorted_wrt (in_order c old) (stable_places c old m)"
  using assms(3)
proof (induction m)
  case 0
  show ?case by (simp add: stable_places_def)
next
  case (Suc m)
  then have "sorted_wrt (in_order c old) (stable_places c old m)" by simp
  from sorted_insert_place [OF assms(1,2) this] Suc.prems show ?case
    by (simp add: stable_places_Suc set_stable_places)
qed

lemma place_of_member:
  "j \<in> set qs \<Longrightarrow> place_of j qs < length qs \<and> qs ! place_of j qs = j"
  by (induction qs) auto

lemma place_of_nth:
  "distinct qs \<Longrightarrow> p < length qs \<Longrightarrow> place_of (qs ! p) qs = p"
proof (induction qs arbitrary: p)
  case Nil
  then show ?case by simp
next
  case (Cons q qs)
  then show ?case by (cases p) auto
qed


text \<open>
  A list \<open>qs\<close> of the old indices, each once, describes a result: the element at the new
  place \<open>p\<close> is the old element at \<open>qs ! p\<close>. The result is admitted when, for a consistent
  comparator, the indices of \<open>qs\<close> are in order.
\<close>

lemma places_admitted:
  assumes lq: "length qs = length old" and sq: "set qs = {..<length old}" and dq: "distinct qs"
    and sorted: "consistent_comparator (SortCompare comparefn) (set old) \<Longrightarrow>
      sorted_wrt (in_order (SortCompare comparefn) old) qs"
  shows "Array_sort comparefn old (\<lambda>j. place_of j qs) (map (\<lambda>q. old ! q) qs)"
proof -
  let ?c = "SortCompare comparefn"
  let ?n = "length old"
  let ?\<pi> = "\<lambda>j. place_of j qs"
  have at: "?\<pi> j < ?n \<and> qs ! ?\<pi> j = j" if "j < ?n" for j
    using place_of_member [of j qs] that by (simp add: sq lq)
  have "inj_on ?\<pi> {..<?n}"
    by (rule inj_on_inverseI [where g = "\<lambda>p. qs ! p"]) (simp add: at)
  moreover have "?\<pi> ` {..<?n} \<subseteq> {..<?n}"
    using at by auto
  ultimately have bij: "bij_betw ?\<pi> {..<?n} {..<?n}"
    by (simp add: bij_betw_def endo_inj_surj)
  have el: "map (\<lambda>q. old ! q) qs ! ?\<pi> j = old ! j" if "j < ?n" for j
    using at [OF that] by (simp add: lq)
  have order: "(\<forall>j < ?n. \<forall>k < ?n. lt0 (?c (old ! j) (old ! k)) \<longrightarrow> ?\<pi> j < ?\<pi> k) \<and>
        (\<forall>j < ?n. \<forall>k < ?n. j < k \<and> eq0 (?c (old ! j) (old ! k)) \<longrightarrow> ?\<pi> j < ?\<pi> k)"
    if con: "consistent_comparator ?c (set old)"
  proof -
    have before: "in_order ?c old k j" if "j < ?n" "k < ?n" "?\<pi> k < ?\<pi> j" for j k
    proof -
      have "in_order ?c old (qs ! ?\<pi> k) (qs ! ?\<pi> j)"
        by (rule sorted_wrt_nth_less [OF sorted [OF con] that(3)]) (simp add: lq at that(1))
      moreover have "qs ! ?\<pi> k = k" "qs ! ?\<pi> j = j"
        using at [OF that(1)] at [OF that(2)] by simp_all
      ultimately show ?thesis by simp
    qed
    have apart: "?\<pi> j \<noteq> ?\<pi> k" if "j < ?n" "k < ?n" "j \<noteq> k" for j k
      using \<open>inj_on ?\<pi> {..<?n}\<close> that by (auto simp: inj_on_def)
    have refl: "eq0 (?c (old ! j) (old ! j))" if "j < ?n" for j
    proof -
      from that have "old ! j \<in> set old" by simp
      with con show ?thesis
        unfolding consistent_comparator_def by blast
    qed
    have "?\<pi> j < ?\<pi> k" if "j < ?n" "k < ?n" "lt0 (?c (old ! j) (old ! k))" for j k
    proof (rule ccontr)
      assume "\<not> ?\<pi> j < ?\<pi> k"
      moreover have "j \<noteq> k"
        using refl [OF that(1)] that(3) by (auto simp: lt0_not_eq0)
      ultimately have "?\<pi> k < ?\<pi> j"
        using apart [OF that(1,2)] by simp
      from before [OF that(1,2) this] that(3) show False
        by (simp add: in_order_def)
    qed
    moreover have "?\<pi> j < ?\<pi> k"
      if "j < ?n" "k < ?n" "j < k" "eq0 (?c (old ! j) (old ! k))" for j k
    proof (rule ccontr)
      assume "\<not> ?\<pi> j < ?\<pi> k"
      with apart [OF that(1,2)] that(3) have "?\<pi> k < ?\<pi> j" by simp
      from before [OF that(1,2) this] have "eq0 (?c (old ! k) (old ! j)) \<longrightarrow> k < j"
        by (simp add: in_order_def)
      moreover have "old ! j \<in> set old" "old ! k \<in> set old"
        using that(1,2) by simp_all
      with con that(4) have "eq0 (?c (old ! k) (old ! j))"
        unfolding consistent_comparator_def by blast
      ultimately show False using that(3) by simp
    qed
    ultimately show ?thesis by blast
  qed
  show ?thesis
    unfolding Array_sort_def
    using bij el order by (simp add: lq)
qed

text \<open>
  The stable insertion sort gives a result that \<open>Array_sort\<close> admits, for every comparator
  and every list: for every input the sort has a result.
\<close>

lemma stable_sort_admitted:
  "Array_sort comparefn old
     (\<lambda>j. place_of j (stable_places (SortCompare comparefn) old (length old)))
     (stable_sort comparefn old)"
  unfolding stable_sort_def
  by (rule places_admitted)
    (simp_all add: length_stable_places set_stable_places distinct_stable_places
      sorted_stable_places SortCompare_not_NaN)

text \<open>
  For a consistent comparator the result is unique: the permutation is fixed by the order
  and the ties, and every admitted result is the one of the stable insertion sort.
\<close>

lemma place_is_count:
  assumes "bij_betw \<pi> {..<n} {..<n}" and "j < n"
  shows "card {k \<in> {..<n}. \<pi> k < \<pi> j} = \<pi> j"
proof -
  from assms have pj: "\<pi> j < n"
    by (auto simp: bij_betw_def)
  have "bij_betw \<pi> {k \<in> {..<n}. \<pi> k < \<pi> j} {..<\<pi> j}"
    unfolding bij_betw_def
  proof
    show "inj_on \<pi> {k \<in> {..<n}. \<pi> k < \<pi> j}"
      using assms(1) by (auto simp: bij_betw_def inj_on_def)
    show "\<pi> ` {k \<in> {..<n}. \<pi> k < \<pi> j} = {..<\<pi> j}"
    proof
      show "\<pi> ` {k \<in> {..<n}. \<pi> k < \<pi> j} \<subseteq> {..<\<pi> j}" by auto
      show "{..<\<pi> j} \<subseteq> \<pi> ` {k \<in> {..<n}. \<pi> k < \<pi> j}"
      proof
        fix p assume "p \<in> {..<\<pi> j}"
        then have p: "p < \<pi> j" by simp
        with pj have "p \<in> {..<n}" by simp
        with assms(1) obtain k where "k \<in> {..<n}" "\<pi> k = p"
          unfolding bij_betw_def by (metis imageE)
        with p show "p \<in> \<pi> ` {k \<in> {..<n}. \<pi> k < \<pi> j}" by auto
      qed
    qed
  qed
  then have "card {k \<in> {..<n}. \<pi> k < \<pi> j} = card {..<\<pi> j}"
    by (rule bij_betw_same_card)
  then show ?thesis by simp
qed

lemma Array_sort_places_unique:
  assumes a: "Array_sort comparefn old \<pi> new" and b: "Array_sort comparefn old \<pi>' new'"
    and con: "consistent_comparator (SortCompare comparefn) (set old)"
    and j: "j < length old"
  shows "\<pi> j = \<pi>' j"
proof -
  let ?c = "SortCompare comparefn"
  let ?n = "length old"
  have same: "\<pi> k < \<pi> i \<longleftrightarrow> \<pi>' k < \<pi>' i" if "i < ?n" "k < ?n" for i k
  proof (cases "i = k")
    case True
    then show ?thesis by simp
  next
    case False
    have mem: "old ! i \<in> set old" "old ! k \<in> set old"
      using that by simp_all
    from a b have inj: "inj_on \<pi> {..<?n}" "inj_on \<pi>' {..<?n}"
      by (simp_all add: Array_sort_def bij_betw_def)
    with that False have ne: "\<pi> i \<noteq> \<pi> k" "\<pi>' i \<noteq> \<pi>' k"
      by (auto simp: inj_on_def)
    from a con have oa: "\<And>x y. x < ?n \<Longrightarrow> y < ?n \<Longrightarrow> lt0 (?c (old ! x) (old ! y)) \<Longrightarrow> \<pi> x < \<pi> y"
      "\<And>x y. x < ?n \<Longrightarrow> y < ?n \<Longrightarrow> x < y \<Longrightarrow> eq0 (?c (old ! x) (old ! y)) \<Longrightarrow> \<pi> x < \<pi> y"
      unfolding Array_sort_def by blast+
    from b con have ob: "\<And>x y. x < ?n \<Longrightarrow> y < ?n \<Longrightarrow> lt0 (?c (old ! x) (old ! y)) \<Longrightarrow> \<pi>' x < \<pi>' y"
      "\<And>x y. x < ?n \<Longrightarrow> y < ?n \<Longrightarrow> x < y \<Longrightarrow> eq0 (?c (old ! x) (old ! y)) \<Longrightarrow> \<pi>' x < \<pi>' y"
      unfolding Array_sort_def by blast+
    consider (lt) "lt0 (?c (old ! k) (old ! i))" | (eq) "eq0 (?c (old ! k) (old ! i))"
      | (gt) "gt0 (?c (old ! k) (old ! i))"
      using trichotomy [of "?c (old ! k) (old ! i)"] SortCompare_not_NaN [of comparefn] by blast
    then show ?thesis
    proof cases
      case lt
      from oa(1) [OF that(2,1) lt] ob(1) [OF that(2,1) lt] show ?thesis by simp
    next
      case gt
      have "lt0 (?c (old ! i) (old ! k))"
        by (rule consistent_flip_gt [OF con SortCompare_not_NaN mem(2,1) gt])
      from oa(1) [OF that this] ob(1) [OF that this] show ?thesis by simp
    next
      case eq
      with con mem have eq': "eq0 (?c (old ! i) (old ! k))"
        unfolding consistent_comparator_def by blast
      show ?thesis
      proof (cases "k < i")
        case True
        from oa(2) [OF that(2,1) True eq] ob(2) [OF that(2,1) True eq] show ?thesis by simp
      next
        case nk: False
        with False have "i < k" by simp
        from oa(2) [OF that this eq'] ob(2) [OF that this eq'] show ?thesis by simp
      qed
    qed
  qed
  from a b have bij: "bij_betw \<pi> {..<?n} {..<?n}" "bij_betw \<pi>' {..<?n} {..<?n}"
    by (simp_all add: Array_sort_def)
  have "{k \<in> {..<?n}. \<pi> k < \<pi> j} = {k \<in> {..<?n}. \<pi>' k < \<pi>' j}"
    using same [OF j] by auto
  then have "card {k \<in> {..<?n}. \<pi> k < \<pi> j} = card {k \<in> {..<?n}. \<pi>' k < \<pi>' j}"
    by simp
  then show ?thesis
    by (simp only: place_is_count [OF bij(1) j] place_is_count [OF bij(2) j])
qed

lemma Array_sort_unique:
  assumes "Array_sort comparefn old \<pi> new"
    and "consistent_comparator (SortCompare comparefn) (set old)"
  shows "new = stable_sort comparefn old"
proof (rule nth_equalityI)
  let ?\<pi>' = "\<lambda>j. place_of j (stable_places (SortCompare comparefn) old (length old))"
  note b = stable_sort_admitted [of comparefn old]
  from assms(1) b show "length new = length (stable_sort comparefn old)"
    by (simp add: Array_sort_def)
  fix p assume "p < length new"
  from Array_sort_position [OF assms(1) this] obtain j
    where j: "j < length old" "\<pi> j = p" "new ! p = old ! j" .
  from Array_sort_places_unique [OF assms(1) b assms(2) j(1)] have "?\<pi>' j = p"
    by (simp add: j(2))
  moreover from b j(1) have "stable_sort comparefn old ! ?\<pi>' j = old ! j"
    by (simp add: Array_sort_def)
  ultimately show "new ! p = stable_sort comparefn old ! p"
    by (simp add: j(3))
qed

section \<open>The example lists, sorted\<close>

lemma tie_output_computed: "stable_sort compareFn tie_input = tie_output"
  by (simp add: stable_sort_def stable_places_def tie_input_def tie_output_def upt_conv_Cons
      SortCompare_def compareFn_def session_defs)

lemma mixed_output_computed: "stable_sort compareFn mixed_input = mixed_output"
  by (simp add: stable_sort_def stable_places_def mixed_input_def mixed_output_def upt_conv_Cons
      SortCompare_def compareFn_def session_defs)


section \<open>The binary insertion sort keeps the sessions with a transaction first\<close>





subsection \<open>The run at the start\<close>

lemma ascending_run_successively:
  "successively (\<lambda>a b. \<not> lt0 (c b a)) (take (Suc (ascending_run c y rest)) (y # rest))"
  by (induction rest arbitrary: y) (simp_all add: successively_Cons)

lemma descending_run_successively:
  "successively (\<lambda>a b. lt0 (c b a)) (take (Suc (descending_run c y rest)) (y # rest))"
  by (induction rest arbitrary: y) (simp_all add: successively_Cons)




subsection \<open>The place of the binary search\<close>

lemma binary_place_stop: "\<not> left < right \<Longrightarrow> binary_place c pivot xs left right = left"
  by (subst binary_place.simps) simp

lemma binary_place_below:
  "left < right \<Longrightarrow> lt0 (c pivot (xs ! (left + (right - left) div 2))) \<Longrightarrow>
   binary_place c pivot xs left right =
     binary_place c pivot xs left (left + (right - left) div 2)"
  by (subst binary_place.simps) (simp add: Let_def)

lemma binary_place_above:
  "left < right \<Longrightarrow> \<not> lt0 (c pivot (xs ! (left + (right - left) div 2))) \<Longrightarrow>
   binary_place c pivot xs left right =
     binary_place c pivot xs (left + (right - left) div 2 + 1) right"
  by (subst binary_place.simps) (simp add: Let_def)

lemma binary_place_le:
  "left \<le> right \<Longrightarrow> binary_place c pivot xs left right \<le> right"
proof (induction c pivot xs left right rule: binary_place.induct)
  case (1 c pivot xs left right)
  show ?case
  proof (cases "left < right")
    case False
    with 1(3) show ?thesis
      by (simp add: binary_place_stop)
  next
    case True
    let ?mid = "left + (right - left) div 2"
    from True have m: "left \<le> ?mid" "?mid < right" by simp_all
    show ?thesis
    proof (cases "lt0 (c pivot (xs ! ?mid))")
      case lt: True
      from 1(1) [OF True refl lt] m have "binary_place c pivot xs left ?mid \<le> ?mid"
        by simp
      with m show ?thesis
        by (simp only: binary_place_below [where c = c and pivot = pivot and xs = xs, OF True lt])
    next
      case ge: False
      from 1(2) [OF True refl ge] m have "binary_place c pivot xs (?mid + 1) right \<le> right"
        by simp
      then show ?thesis
        by (simp only: binary_place_above [where c = c and pivot = pivot and xs = xs, OF True ge])
    qed
  qed
qed



subsection \<open>The insertions\<close>




section \<open>The binary insertion sort gives a result the language admits\<close>

subsection \<open>The sort of the indices\<close>

lemma SortCompare_index:
  "SortCompare (\<lambda>i k. comparefn (f i) (f k)) = (\<lambda>i k. SortCompare comparefn (f i) (f k))"
  by (simp add: SortCompare_def fun_eq_iff)

lemma ascending_run_map:
  "ascending_run c (f y) (map f rest) = ascending_run (\<lambda>i k. c (f i) (f k)) y rest"
  by (induction rest arbitrary: y) simp_all

lemma descending_run_map:
  "descending_run c (f y) (map f rest) = descending_run (\<lambda>i k. c (f i) (f k)) y rest"
  by (induction rest arbitrary: y) simp_all

lemma make_run_map:
  "make_run c (map f is) =
     (case make_run (\<lambda>i k. c (f i) (f k)) is of (run, rest) \<Rightarrow> (map f run, map f rest))"
proof (cases "is")
  case Nil
  then show ?thesis by simp
next
  case (Cons x is')
  show ?thesis
  proof (cases is')
    case Nil
    with Cons show ?thesis by simp
  next
    case (Cons y rest)
    have "ascending_run c (f y) (map f rest) = ascending_run (\<lambda>i k. c (f i) (f k)) y rest"
      "descending_run c (f y) (map f rest) = descending_run (\<lambda>i k. c (f i) (f k)) y rest"
      by (rule ascending_run_map, rule descending_run_map)
    with Cons \<open>is = x # is'\<close> show ?thesis
      by (simp add: Let_def take_map drop_map rev_map)
  qed
qed

lemma binary_place_map:
  "right \<le> length is \<Longrightarrow>
   binary_place c (f p) (map f is) left right =
     binary_place (\<lambda>i k. c (f i) (f k)) p is left right"
proof (induction "\<lambda>i k. c (f i) (f k)" p "is" left right rule: binary_place.induct)
  case (1 p "is" left right)
  let ?d = "\<lambda>i k. c (f i) (f k)"
  show ?case
  proof (cases "left < right")
    case False
    then show ?thesis by (simp add: binary_place_stop)
  next
    case True
    let ?mid = "left + (right - left) div 2"
    from True have m: "?mid < right" by simp
    with 1(3) have ml: "?mid < length is" by simp
    show ?thesis
    proof (cases "lt0 (?d p (is ! ?mid))")
      case lt: True
      from ml lt have lt': "lt0 (c (f p) (map f is ! ?mid))" by simp
      from ml have "?mid \<le> length is" by simp
      from 1(1) [OF True refl lt this] show ?thesis
        by (simp only: binary_place_below [where c = ?d and pivot = p and xs = "is", OF True lt]
            binary_place_below [where c = c and pivot = "f p" and xs = "map f is", OF True lt'])
    next
      case ge: False
      from ml ge have ge': "\<not> lt0 (c (f p) (map f is ! ?mid))" by simp
      from 1(2) [OF True refl ge 1(3)] show ?thesis
        by (simp only: binary_place_above [where c = ?d and pivot = p and xs = "is", OF True ge]
            binary_place_above [where c = c and pivot = "f p" and xs = "map f is", OF True ge'])
    qed
  qed
qed

lemma binary_insert_map:
  "binary_insert c (map f is) (f p) = map f (binary_insert (\<lambda>i k. c (f i) (f k)) is p)"
  by (simp add: binary_insert_def binary_place_map take_map drop_map Let_def)

lemma foldl_binary_insert_map:
  "foldl (binary_insert c) (map f run) (map f rest) =
     map f (foldl (binary_insert (\<lambda>i k. c (f i) (f k))) run rest)"
  by (induction rest arbitrary: run) (simp_all add: binary_insert_map)

lemma binary_insertion_sort_map:
  "binary_insertion_sort comparefn (map f is) =
     map f (binary_insertion_sort (\<lambda>i k. comparefn (f i) (f k)) is)"
  by (simp add: binary_insertion_sort_def SortCompare_index make_run_map
      foldl_binary_insert_map split: prod.splits)

lemma binary_insertion_sort_places:
  "binary_insertion_sort comparefn old = map (\<lambda>q. old ! q) (binary_places comparefn old)"
  using binary_insertion_sort_map [of comparefn "\<lambda>q. old ! q" "[0..<length old]"]
  by (simp add: binary_places_def map_nth)

subsection \<open>The indices are only moved\<close>

lemma set_binary_insert: "set (binary_insert c xs p) = insert p (set xs)"
proof -
  have "set (take n xs) \<union> set (drop n xs) = set xs" for n
    using set_append [of "take n xs" "drop n xs"] by simp
  then show ?thesis
    by (simp add: binary_insert_def Let_def)
qed

lemma length_binary_insert: "length (binary_insert c xs p) = Suc (length xs)"
  by (simp add: binary_insert_def Let_def)

lemma set_foldl_binary_insert:
  "set (foldl (binary_insert c) run rest) = set run \<union> set rest"
  by (induction rest arbitrary: run) (simp_all add: set_binary_insert)

lemma length_foldl_binary_insert:
  "length (foldl (binary_insert c) run rest) = length run + length rest"
  by (induction rest arbitrary: run) (simp_all add: length_binary_insert)

text \<open>The run is the front part of the list, as it is or reversed.\<close>

lemma make_run_parts:
  assumes "make_run c xs = (run, rest)"
  obtains r where "rest = drop r xs" and "run = take r xs \<or> run = rev (take r xs)"
proof (cases xs)
  case Nil
  with assms have "rest = drop 0 xs" "run = take 0 xs" by simp_all
  with that show ?thesis by blast
next
  case (Cons x xs')
  show ?thesis
  proof (cases xs')
    case Nil
    with Cons assms have "rest = drop 1 xs" "run = take 1 xs" by auto
    with that show ?thesis by blast
  next
    case (Cons y ys)
    show ?thesis
    proof (cases "lt0 (c y x)")
      case True
      with Cons \<open>xs = x # xs'\<close> assms
      have "rest = drop (2 + descending_run c y ys) xs"
        "run = rev (take (2 + descending_run c y ys) xs)"
        by (simp_all add: Let_def)
      with that show ?thesis by blast
    next
      case False
      with Cons \<open>xs = x # xs'\<close> assms
      have "rest = drop (2 + ascending_run c y ys) xs"
        "run = take (2 + ascending_run c y ys) xs"
        by (simp_all add: Let_def)
      with that show ?thesis by blast
    qed
  qed
qed

lemma set_binary_insertion_sort: "set (binary_insertion_sort comparefn xs) = set xs"
proof -
  obtain run rest where r: "make_run (SortCompare comparefn) xs = (run, rest)"
    by (cases "make_run (SortCompare comparefn) xs")
  from make_run_parts [OF r] obtain n
    where "rest = drop n xs" "run = take n xs \<or> run = rev (take n xs)" .
  then have "set run \<union> set rest = set (take n xs @ drop n xs)"
    by (auto simp del: append_take_drop_id)
  with r show ?thesis
    by (simp add: binary_insertion_sort_def set_foldl_binary_insert)
qed

lemma length_binary_insertion_sort: "length (binary_insertion_sort comparefn xs) = length xs"
proof -
  obtain run rest where r: "make_run (SortCompare comparefn) xs = (run, rest)"
    by (cases "make_run (SortCompare comparefn) xs")
  from make_run_parts [OF r] obtain n
    where "rest = drop n xs" "run = take n xs \<or> run = rev (take n xs)" .
  then have "length run + length rest = length xs"
    by auto
  with r show ?thesis
    by (simp add: binary_insertion_sort_def length_foldl_binary_insert)
qed

lemma length_binary_places: "length (binary_places comparefn old) = length old"
  by (simp add: binary_places_def length_binary_insertion_sort)

lemma set_binary_places: "set (binary_places comparefn old) = {..<length old}"
  by (simp add: binary_places_def set_binary_insertion_sort lessThan_atLeast0)

lemma distinct_binary_places: "distinct (binary_places comparefn old)"
  by (rule card_distinct) (simp add: set_binary_places length_binary_places)

subsection \<open>For a consistent comparator the indices end in order\<close>

lemma consistent_lt_eq:
  assumes con: "consistent_comparator c S" and nn: "\<And>x y. c x y \<noteq> NaN"
    and mem: "a \<in> S" "b \<in> S" "d \<in> S" and "lt0 (c a b)" and "eq0 (c b d)"
  shows "lt0 (c a d)"
proof -
  from con mem assms(7) have db: "eq0 (c d b)"
    unfolding consistent_comparator_def by blast
  have "\<not> eq0 (c a d)"
  proof
    assume "eq0 (c a d)"
    with con mem db have "eq0 (c a b)"
      unfolding consistent_comparator_def by blast
    with assms(6) show False by (simp add: lt0_not_eq0)
  qed
  moreover have "\<not> gt0 (c a d)"
  proof
    assume "gt0 (c a d)"
    then have "lt0 (c d a)"
      by (rule consistent_flip_gt [OF con nn mem(1,3)])
    with con mem assms(6) have "lt0 (c d b)"
      unfolding consistent_comparator_def by blast
    with db show False by (simp add: lt0_not_eq0)
  qed
  ultimately show ?thesis
    using trichotomy [of "c a d"] nn by blast
qed

lemma not_below_trans:
  assumes con: "consistent_comparator c S" and nn: "\<And>x y. c x y \<noteq> NaN"
    and mem: "a \<in> S" "b \<in> S" "d \<in> S" and "\<not> lt0 (c b a)" and "\<not> lt0 (c d b)"
  shows "\<not> lt0 (c d a)"
proof
  assume l: "lt0 (c d a)"
  from assms(6) consider "eq0 (c b a)" | "gt0 (c b a)"
    using trichotomy [of "c b a"] nn by blast
  then show False
  proof cases
    case 1
    with con mem have "eq0 (c a b)"
      unfolding consistent_comparator_def by blast
    from consistent_lt_eq [OF con nn mem(3,1,2) l this] assms(7) show False by simp
  next
    case 2
    then have "lt0 (c a b)"
      by (rule consistent_flip_gt [OF con nn mem(2,1)])
    with con mem l have "lt0 (c d b)"
      unfolding consistent_comparator_def by blast
    with assms(7) show False by simp
  qed
qed

lemma in_order_trans:
  assumes con: "consistent_comparator c (set old)" and nn: "\<And>x y. c x y \<noteq> NaN"
    and lt: "i < length old" "k < length old" "m < length old"
    and ik: "in_order c old i k" and km: "in_order c old k m"
  shows "in_order c old i m"
proof -
  from lt have mem: "old ! i \<in> set old" "old ! k \<in> set old" "old ! m \<in> set old"
    by simp_all
  from ik km have nb: "\<not> lt0 (c (old ! k) (old ! i))" "\<not> lt0 (c (old ! m) (old ! k))"
    by (simp_all add: in_order_def)
  have first: "\<not> lt0 (c (old ! m) (old ! i))"
    by (rule not_below_trans [OF con nn mem nb])
  have second: "i < m" if tie: "eq0 (c (old ! i) (old ! m))"
  proof -
    from con mem tie have mi: "eq0 (c (old ! m) (old ! i))"
      unfolding consistent_comparator_def by blast
    have "\<not> gt0 (c (old ! k) (old ! i))"
    proof
      assume "gt0 (c (old ! k) (old ! i))"
      then have "lt0 (c (old ! i) (old ! k))"
        by (rule consistent_flip_gt [OF con nn mem(2,1)])
      from consistent_eq_lt [OF con nn mem(3,1,2) mi this] nb(2) show False by simp
    qed
    with nb(1) have "eq0 (c (old ! k) (old ! i))"
      using trichotomy [of "c (old ! k) (old ! i)"] nn by blast
    with con mem have e1: "eq0 (c (old ! i) (old ! k))"
      unfolding consistent_comparator_def by blast
    have "\<not> gt0 (c (old ! m) (old ! k))"
    proof
      assume "gt0 (c (old ! m) (old ! k))"
      then have "lt0 (c (old ! k) (old ! m))"
        by (rule consistent_flip_gt [OF con nn mem(3,2)])
      from consistent_eq_lt [OF con nn mem(1,2,3) e1 this] tie show False
        by (simp add: lt0_not_eq0)
    qed
    with nb(2) have "eq0 (c (old ! m) (old ! k))"
      using trichotomy [of "c (old ! m) (old ! k)"] nn by blast
    with con mem have e2: "eq0 (c (old ! k) (old ! m))"
      unfolding consistent_comparator_def by blast
    from ik e1 have "i < k" by (simp add: in_order_def)
    moreover from km e2 have "k < m" by (simp add: in_order_def)
    ultimately show ?thesis by simp
  qed
  from first second show ?thesis
    by (simp add: in_order_def)
qed

text \<open>
  The binary search in a list of indices in order ends at the place before which no
  element compares above the pivot, and from which on every element does.
\<close>

lemma binary_place_sorted:
  assumes con: "consistent_comparator c (set old)" and nn: "\<And>x y. c x y \<noteq> NaN"
    and sorted: "sorted_wrt (in_order c old) qs"
    and inside: "\<forall>q \<in> set qs. q < length old" and j: "j < length old"
  shows "right \<le> length qs \<Longrightarrow> left \<le> right \<Longrightarrow>
    \<forall>i < left. \<not> lt0 (c (old ! j) (old ! (qs ! i))) \<Longrightarrow>
    \<forall>i. right \<le> i \<and> i < length qs \<longrightarrow> lt0 (c (old ! j) (old ! (qs ! i))) \<Longrightarrow>
    (\<forall>i < binary_place (\<lambda>i k. c (old ! i) (old ! k)) j qs left right.
       \<not> lt0 (c (old ! j) (old ! (qs ! i)))) \<and>
    (\<forall>i. binary_place (\<lambda>i k. c (old ! i) (old ! k)) j qs left right \<le> i \<and> i < length qs \<longrightarrow>
       lt0 (c (old ! j) (old ! (qs ! i))))"
  using sorted inside j
proof (induction "\<lambda>i k. c (old ! i) (old ! k)" j qs left right rule: binary_place.induct)
  case (1 j qs left right)
  let ?d = "\<lambda>i k. c (old ! i) (old ! k)"
  have el: "old ! (qs ! i) \<in> set old" if "i < length qs" for i
    using 1(8) that by simp
  from 1(9) have pj: "old ! j \<in> set old" by simp
  show ?case
  proof (cases "left < right")
    case False
    with 1(4) have "left = right" by simp
    with 1(5,6) show ?thesis
      by (simp add: binary_place_stop)
  next
    case True
    let ?mid = "left + (right - left) div 2"
    from True have m: "left \<le> ?mid" "?mid < right" by simp_all
    from m 1(3) have ml: "?mid < length qs" by simp
    show ?thesis
    proof (cases "lt0 (?d j (qs ! ?mid))")
      case lt: True
      have rear: "\<forall>i. ?mid \<le> i \<and> i < length qs \<longrightarrow> lt0 (c (old ! j) (old ! (qs ! i)))"
      proof (intro allI impI)
        fix i
        assume i: "?mid \<le> i \<and> i < length qs"
        then consider "i = ?mid" | "?mid < i" by linarith
        then show "lt0 (c (old ! j) (old ! (qs ! i)))"
        proof cases
          case 1
          with lt show ?thesis by simp
        next
          case 2
          from i have il: "i < length qs" by simp
          from sorted_wrt_nth_less [OF "1.prems"(5) 2 il]
          have nb: "\<not> lt0 (c (old ! (qs ! i)) (old ! (qs ! ?mid)))"
            by (simp add: in_order_def)
          show ?thesis
          proof (rule ccontr)
            assume "\<not> lt0 (c (old ! j) (old ! (qs ! i)))"
            from not_below_trans [OF con nn el [OF ml] el [OF il] pj nb this] lt
            show False by simp
          qed
        qed
      qed
      from ml have "?mid \<le> length qs" by simp
      from 1(1) [OF True refl lt this m(1) 1(5) rear 1(7,8,9)] show ?thesis
        by (simp only: binary_place_below [where c = ?d and pivot = j and xs = qs, OF True lt])
    next
      case ge: False
      have front: "\<forall>i < ?mid + 1. \<not> lt0 (c (old ! j) (old ! (qs ! i)))"
      proof (intro allI impI)
        fix i
        assume "i < ?mid + 1"
        then consider "i = ?mid" | "i < ?mid" by linarith
        then show "\<not> lt0 (c (old ! j) (old ! (qs ! i)))"
        proof cases
          case 1
          with ge show ?thesis by simp
        next
          case 2
          with ml have il: "i < length qs" by simp
          from sorted_wrt_nth_less [OF "1.prems"(5) 2 ml]
          have nb: "\<not> lt0 (c (old ! (qs ! ?mid)) (old ! (qs ! i)))"
            by (simp add: in_order_def)
          from ge have "\<not> lt0 (c (old ! j) (old ! (qs ! ?mid)))" by simp
          from not_below_trans [OF con nn el [OF il] el [OF ml] pj nb this]
          show ?thesis .
        qed
      qed
      from m have "?mid + 1 \<le> right" by simp
      from 1(2) [OF True refl ge 1(3) this front 1(6,7,8,9)] show ?thesis
        by (simp only: binary_place_above [where c = ?d and pivot = j and xs = qs, OF True ge])
    qed
  qed
qed

lemma sorted_binary_insert:
  assumes con: "consistent_comparator c (set old)" and nn: "\<And>x y. c x y \<noteq> NaN"
    and sorted: "sorted_wrt (in_order c old) qs"
    and older: "\<forall>q \<in> set qs. q < j" and j: "j < length old"
  shows "sorted_wrt (in_order c old) (binary_insert (\<lambda>i k. c (old ! i) (old ! k)) qs j)"
proof -
  let ?l = "binary_place (\<lambda>i k. c (old ! i) (old ! k)) j qs 0 (length qs)"
  from older j have inside: "\<forall>q \<in> set qs. q < length old" by auto
  have le: "?l \<le> length qs"
    by (rule binary_place_le) simp
  have "\<forall>i. length qs \<le> i \<and> i < length qs \<longrightarrow> lt0 (c (old ! j) (old ! (qs ! i)))"
    by auto
  with binary_place_sorted [OF con nn sorted inside j, of "length qs" 0]
  have front: "\<forall>i < ?l. \<not> lt0 (c (old ! j) (old ! (qs ! i)))"
    and rear: "\<forall>i. ?l \<le> i \<and> i < length qs \<longrightarrow> lt0 (c (old ! j) (old ! (qs ! i)))"
    by simp_all
  have before: "in_order c old a j" if "a \<in> set (take ?l qs)" for a
  proof -
    from that le obtain i where "i < ?l" "a = qs ! i"
      by (auto simp: in_set_conv_nth)
    with front have "\<not> lt0 (c (old ! j) (old ! a))" by simp
    moreover from that older have "a < j"
      by (auto dest: in_set_takeD)
    ultimately show ?thesis by (simp add: in_order_def)
  qed
  have after: "in_order c old j b" if "b \<in> set (drop ?l qs)" for b
  proof -
    from that obtain i where i: "i < length (drop ?l qs)" "drop ?l qs ! i = b"
      by (metis in_set_conv_nth)
    from i(1) have "?l + i < length qs" by simp
    moreover from i(2) le have "b = qs ! (?l + i)" by simp
    ultimately have l: "lt0 (c (old ! j) (old ! b))"
      using rear by simp
    from that inside have "old ! b \<in> set old"
      by (auto dest: in_set_dropD)
    moreover from j have "old ! j \<in> set old" by simp
    ultimately have "gt0 (c (old ! b) (old ! j))"
      using consistent_flip [OF con nn _ _ l] by blast
    with l show ?thesis
      by (auto simp: in_order_def lt0_not_eq0 lt0_not_gt0)
  qed
  from sorted have "sorted_wrt (in_order c old) (take ?l qs @ drop ?l qs)"
    by simp
  then have "sorted_wrt (in_order c old) (take ?l qs)" "sorted_wrt (in_order c old) (drop ?l qs)"
    and "\<forall>a \<in> set (take ?l qs). \<forall>b \<in> set (drop ?l qs). in_order c old a b"
    unfolding sorted_wrt_append by blast+
  with before after show ?thesis
    by (simp add: binary_insert_def Let_def sorted_wrt_append)
qed

lemma sorted_foldl_binary_insert:
  assumes con: "consistent_comparator c (set old)" and nn: "\<And>x y. c x y \<noteq> NaN"
  shows "sorted_wrt (in_order c old) run \<Longrightarrow> sorted_wrt (<) rest \<Longrightarrow>
    \<forall>a \<in> set run. \<forall>b \<in> set rest. a < b \<Longrightarrow> \<forall>b \<in> set rest. b < length old \<Longrightarrow>
    sorted_wrt (in_order c old) (foldl (binary_insert (\<lambda>i k. c (old ! i) (old ! k))) run rest)"
proof (induction rest arbitrary: run)
  case Nil
  then show ?case by simp
next
  case (Cons j rest)
  from Cons.prems have "sorted_wrt (in_order c old) (binary_insert (\<lambda>i k. c (old ! i) (old ! k)) run j)"
    by (intro sorted_binary_insert [OF con nn]) simp_all
  moreover from Cons.prems have "sorted_wrt (<) rest" by simp
  moreover from Cons.prems
  have "\<forall>a \<in> set (binary_insert (\<lambda>i k. c (old ! i) (old ! k)) run j). \<forall>b \<in> set rest. a < b"
    by (simp add: set_binary_insert)
  moreover from Cons.prems have "\<forall>b \<in> set rest. b < length old" by simp
  ultimately show ?case
    using Cons.IH by simp
qed

text \<open>The run at the start of a list of ascending indices is in order.\<close>

lemma successively_both:
  "successively P xs \<Longrightarrow> successively Q xs \<Longrightarrow> successively (\<lambda>a b. P a b \<and> Q a b) xs"
  by (induction xs rule: induct_list012) simp_all

lemma sorted_make_run:
  assumes con: "consistent_comparator c (set old)" and nn: "\<And>x y. c x y \<noteq> NaN"
    and asc: "sorted_wrt (<) is" and inside: "\<forall>i \<in> set is. i < length old"
  shows "sorted_wrt (in_order c old) (fst (make_run (\<lambda>i k. c (old ! i) (old ! k)) is))"
proof -
  let ?d = "\<lambda>i k. c (old ! i) (old ! k)"
  have trans: "in_order c old x z"
    if "x \<in> set zs" "y \<in> set zs" "z \<in> set zs" "in_order c old x y" "in_order c old y z"
      and "set zs \<subseteq> set is" for x y z zs
    using that inside by (intro in_order_trans [OF con nn _ _ _ that(4,5)]) auto
  show ?thesis
  proof (cases "is")
    case Nil
    then show ?thesis by simp
  next
    case (Cons x is')
    show ?thesis
    proof (cases is')
      case Nil
      with Cons show ?thesis by simp
    next
      case (Cons y rest)
      with \<open>is = x # is'\<close> have whole: "is = x # y # rest" by simp
      show ?thesis
      proof (cases "lt0 (?d y x)")
        case True
        let ?run = "x # take (Suc (descending_run ?d y rest)) (y # rest)"
        have sub: "set ?run \<subseteq> set is"
          using set_take_subset [of "Suc (descending_run ?d y rest)" "y # rest"]
          by (auto simp: whole)
        have "successively (\<lambda>a b. lt0 (?d b a)) ?run"
          using True descending_run_successively [of ?d y rest]
          by (simp add: successively_Cons)
        then have "successively (\<lambda>a b. in_order c old b a) ?run"
        proof (rule successively_mono)
          fix a b
          assume a: "a \<in> set ?run" and b: "b \<in> set ?run" and l: "lt0 (?d b a)"
          from a b sub inside have "old ! a \<in> set old" "old ! b \<in> set old"
            by auto
          with l have "gt0 (c (old ! a) (old ! b))"
            using consistent_flip [OF con nn, of "old ! b" "old ! a"] by simp
          with l show "in_order c old b a"
            by (auto simp: in_order_def lt0_not_eq0 lt0_not_gt0)
        qed
        then have "successively (in_order c old) (rev ?run)"
          by (simp only: successively_rev)
        moreover have "set (rev ?run) \<subseteq> set is"
          using sub by simp
        ultimately have "sorted_wrt (in_order c old) (rev ?run)"
          using successively_iff_sorted_wrt_strong [of "rev ?run" "in_order c old"] trans
          by blast
        with True whole show ?thesis
          by (simp add: Let_def)
      next
        case False
        let ?run = "x # take (Suc (ascending_run ?d y rest)) (y # rest)"
        have sub: "set ?run \<subseteq> set is"
          using set_take_subset [of "Suc (ascending_run ?d y rest)" "y # rest"]
          by (auto simp: whole)
        have "?run = take (Suc (Suc (ascending_run ?d y rest))) is"
          by (simp add: whole)
        with asc have "sorted_wrt (<) ?run"
          by (simp only: sorted_wrt_take)
        then have up: "successively (<) ?run"
          by (rule successively_if_sorted_wrt)
        have "successively (\<lambda>a b. \<not> lt0 (?d b a)) ?run"
          using False ascending_run_successively [of ?d y rest]
          by (simp add: successively_Cons)
        from successively_both [OF this up]
        have "successively (in_order c old) ?run"
          by (rule successively_mono) (simp add: in_order_def)
        then have "sorted_wrt (in_order c old) ?run"
          using successively_iff_sorted_wrt_strong [of ?run "in_order c old"] trans sub
          by blast
        with False whole show ?thesis
          by (simp add: Let_def)
      qed
    qed
  qed
qed

lemma sorted_binary_places:
  assumes con: "consistent_comparator (SortCompare comparefn) (set old)"
  shows "sorted_wrt (in_order (SortCompare comparefn) old) (binary_places comparefn old)"
proof -
  let ?c = "SortCompare comparefn"
  let ?d = "\<lambda>i k. ?c (old ! i) (old ! k)"
  let ?is = "[0..<length old]"
  obtain run rest where r: "make_run ?d ?is = (run, rest)"
    by (cases "make_run ?d ?is")
  have asc: "sorted_wrt (<) ?is" and inside: "\<forall>i \<in> set ?is. i < length old"
    by (simp_all add: sorted_wrt_upt)
  from sorted_make_run [OF con SortCompare_not_NaN asc inside] r
  have sr: "sorted_wrt (in_order ?c old) run" by simp
  from make_run_parts [OF r] obtain n
    where parts: "rest = drop n ?is" "run = take n ?is \<or> run = rev (take n ?is)" .
  from asc have "sorted_wrt (<) (take n ?is @ drop n ?is)"
    by (simp only: append_take_drop_id)
  then have "sorted_wrt (<) (drop n ?is)"
    and "\<forall>a \<in> set (take n ?is). \<forall>b \<in> set (drop n ?is). a < b"
    unfolding sorted_wrt_append by blast+
  with parts have "sorted_wrt (<) rest" "\<forall>a \<in> set run. \<forall>b \<in> set rest. a < b"
    by auto
  moreover from parts(1) have "\<forall>b \<in> set rest. b < length old"
    by (auto dest: in_set_dropD)
  ultimately have "sorted_wrt (in_order ?c old) (foldl (binary_insert ?d) run rest)"
    using sorted_foldl_binary_insert [OF con SortCompare_not_NaN sr] by blast
  with r show ?thesis
    by (simp add: binary_places_def binary_insertion_sort_def SortCompare_index)
qed

text \<open>
  The binary insertion sort gives a result that \<open>Array_sort\<close> admits, for every comparator
  and every list; for a consistent comparator it is the result of the stable insertion
  sort.
\<close>

lemma binary_insertion_sort_admitted:
  "Array_sort comparefn old (\<lambda>j. place_of j (binary_places comparefn old))
     (binary_insertion_sort comparefn old)"
  unfolding binary_insertion_sort_places
  by (rule places_admitted)
    (simp_all add: length_binary_places set_binary_places distinct_binary_places
      sorted_binary_places)

lemma binary_insertion_sort_stable_sort:
  "consistent_comparator (SortCompare comparefn) (set old) \<Longrightarrow>
   binary_insertion_sort comparefn old = stable_sort comparefn old"
  by (rule Array_sort_unique [OF binary_insertion_sort_admitted])

section \<open>A report of seven sessions, parsed, correlated and ranked\<close>

lemma seven_start_lines:
  "is_start ''---TRANSACTION 421977478863501, not started''"
  "is_start ''---TRANSACTION 421977478863502, not started''"
  "is_start ''---TRANSACTION 9101, ACTIVE 2 sec''"
  "is_start ''---TRANSACTION 421977478863504, not started''"
  "is_start ''---TRANSACTION 9102, ACTIVE 3 sec''"
  "is_start ''---TRANSACTION 9103, ACTIVE 4 sec''"
  "is_start ''---TRANSACTION 9104, ACTIVE 3 sec''"
  by (simp_all add: is_start_def str_startsWith_def)

lemma seven_id_lines:
  "is_id ''MariaDB thread id 1, localhost root''"
  "is_id ''MariaDB thread id 2, localhost root''"
  "is_id ''MariaDB thread id 3, localhost root''"
  "is_id ''MariaDB thread id 4, localhost root''"
  "is_id ''MariaDB thread id 5, localhost root''"
  "is_id ''MariaDB thread id 6, localhost root''"
  "is_id ''MariaDB thread id 7, localhost root''"
  by (simp_all add: is_id_def str_startsWith_def)

lemma seven_id_lines_not_start:
  "\<not> is_start ''MariaDB thread id 1, localhost root''"
  "\<not> is_start ''MariaDB thread id 2, localhost root''"
  "\<not> is_start ''MariaDB thread id 3, localhost root''"
  "\<not> is_start ''MariaDB thread id 4, localhost root''"
  "\<not> is_start ''MariaDB thread id 5, localhost root''"
  "\<not> is_start ''MariaDB thread id 6, localhost root''"
  "\<not> is_start ''MariaDB thread id 7, localhost root''"
  by (simp_all add: is_start_def str_startsWith_def)

lemma parseInt_2_sec: "parseInt '' 2 sec'' = Finite 2"
  by (simp add: parseInt_def isWhiteSpace_def isRadixDigit_def digitValue_def numberValue_def)

lemma parseInt_4_sec: "parseInt '' 4 sec'' = Finite 4"
  by (simp add: parseInt_def isWhiteSpace_def isRadixDigit_def digitValue_def numberValue_def)

lemma seven_active_times:
  "activeTime_of ''---TRANSACTION 9101, ACTIVE 2 sec'' = Finite 2"
  "activeTime_of ''---TRANSACTION 9102, ACTIVE 3 sec'' = Finite 3"
  "activeTime_of ''---TRANSACTION 9103, ACTIVE 4 sec'' = Finite 4"
  "activeTime_of ''---TRANSACTION 9104, ACTIVE 3 sec'' = Finite 3"
  by (simp_all add: activeTime_of_def str_indexOf_def str_startsWith_def str_slice_def
      parseInt_2_sec parseInt_3_sec parseInt_4_sec)

lemma seven_no_ACTIVE:
  "str_indexOf ''---TRANSACTION 421977478863501, not started'' '', ACTIVE'' = - 1"
  "str_indexOf ''---TRANSACTION 421977478863502, not started'' '', ACTIVE'' = - 1"
  "str_indexOf ''---TRANSACTION 421977478863504, not started'' '', ACTIVE'' = - 1"
  by (simp_all add: str_indexOf_def str_startsWith_def)

lemma seven_not_started:
  "activeTime_of ''---TRANSACTION 421977478863501, not started'' = NaN"
  "activeTime_of ''---TRANSACTION 421977478863502, not started'' = NaN"
  "activeTime_of ''---TRANSACTION 421977478863504, not started'' = NaN"
  by (rule activeTime_of_no_ACTIVE, simp add: seven_start_lines, simp add: seven_no_ACTIVE)+

lemma seven_thread_ids:
  "threadId_of ''MariaDB thread id 1, localhost root'' = Finite 1"
  "threadId_of ''MariaDB thread id 2, localhost root'' = Finite 2"
  "threadId_of ''MariaDB thread id 3, localhost root'' = Finite 3"
  "threadId_of ''MariaDB thread id 4, localhost root'' = Finite 4"
  "threadId_of ''MariaDB thread id 5, localhost root'' = Finite 5"
  "threadId_of ''MariaDB thread id 6, localhost root'' = Finite 6"
  "threadId_of ''MariaDB thread id 7, localhost root'' = Finite 7"
  by (simp_all add: threadId_of_def arr_get_def parseInt_def isWhiteSpace_def isRadixDigit_def
      digitValue_def numberValue_def)

lemmas seven_line_facts =
  plain_lines seven_start_lines seven_id_lines seven_id_lines_not_start seven_active_times
  seven_not_started seven_thread_ids

lemma split_seven: "str_split seven_report LF =
  [''LIST OF TRANSACTIONS FOR EACH SESSION:'',
   ''---TRANSACTION 421977478863501, not started'',
   ''MariaDB thread id 1, localhost root'',
   ''---TRANSACTION 421977478863502, not started'',
   ''MariaDB thread id 2, localhost root'',
   ''---TRANSACTION 9101, ACTIVE 2 sec'',
   ''MariaDB thread id 3, localhost root'',
   ''---TRANSACTION 421977478863504, not started'',
   ''MariaDB thread id 4, localhost root'',
   ''---TRANSACTION 9102, ACTIVE 3 sec'',
   ''MariaDB thread id 5, localhost root'',
   ''---TRANSACTION 9103, ACTIVE 4 sec'',
   ''MariaDB thread id 6, localhost root'',
   ''---TRANSACTION 9104, ACTIVE 3 sec'',
   ''MariaDB thread id 7, localhost root'',
   ''--------'', []]"
  by (simp add: seven_report_def)

lemma marker_seven: "has_marker seven_report"
  by (simp add: has_marker_def split_seven str_startsWith_def)

lemma scanned_seven: "scanned_lines seven_report =
  [''LIST OF TRANSACTIONS FOR EACH SESSION:'',
   ''---TRANSACTION 421977478863501, not started'',
   ''MariaDB thread id 1, localhost root'',
   ''---TRANSACTION 421977478863502, not started'',
   ''MariaDB thread id 2, localhost root'',
   ''---TRANSACTION 9101, ACTIVE 2 sec'',
   ''MariaDB thread id 3, localhost root'',
   ''---TRANSACTION 421977478863504, not started'',
   ''MariaDB thread id 4, localhost root'',
   ''---TRANSACTION 9102, ACTIVE 3 sec'',
   ''MariaDB thread id 5, localhost root'',
   ''---TRANSACTION 9103, ACTIVE 4 sec'',
   ''MariaDB thread id 6, localhost root'',
   ''---TRANSACTION 9104, ACTIVE 3 sec'',
   ''MariaDB thread id 7, localhost root'']"
  by (simp add: scanned_lines_def split_seven arr_findIndex_def is_terminator_def
      str_startsWith_def)

lemma final_seven: "final_state seven_report =
   \<lparr>st_store = objects seven_dict, st_transactions = refs seven_dict, st_transaction = 7\<rparr>"
  by (simp add: final_state_def scanned_seven init_state_def seven_dict_def
      body_by_kind seven_line_facts eval_nat_numeral)

lemma parse_seven: "parseInnoDbStatus seven_report = Inr seven_dict"
  by (simp add: parse_with_marker [OF marker_seven] final_seven)

text \<open>The seven sessions, each with the entry of its id.\<close>

lemma seven_entries:
  "dict_get seven_dict (Finite 1) = Some (objects seven_dict ! 1)"
  "dict_get seven_dict (Finite 2) = Some (objects seven_dict ! 2)"
  "dict_get seven_dict (Finite 3) = Some (objects seven_dict ! 3)"
  "dict_get seven_dict (Finite 4) = Some (objects seven_dict ! 4)"
  "dict_get seven_dict (Finite 5) = Some (objects seven_dict ! 5)"
  "dict_get seven_dict (Finite 6) = Some (objects seven_dict ! 6)"
  "dict_get seven_dict (Finite 7) = Some (objects seven_dict ! 7)"
  by (simp_all add: dict_get_def seven_dict_def)

lemma seven_times:
  "activeTime (objects seven_dict ! 1) = NaN"
  "activeTime (objects seven_dict ! 2) = NaN"
  "activeTime (objects seven_dict ! 3) = Finite 2"
  "activeTime (objects seven_dict ! 4) = NaN"
  "activeTime (objects seven_dict ! 5) = Finite 3"
  "activeTime (objects seven_dict ! 6) = Finite 4"
  "activeTime (objects seven_dict ! 7) = Finite 3"
  by (simp_all add: seven_dict_def)

lemma seven_correlated:
  "processListWithTransaction seven_dict seven_sessions =
     [enriched 1 0 (Some (objects seven_dict ! 1)), enriched 2 0 (Some (objects seven_dict ! 2)),
      enriched 3 0 (Some (objects seven_dict ! 3)), enriched 4 0 (Some (objects seven_dict ! 4)),
      enriched 5 0 (Some (objects seven_dict ! 5)), enriched 6 0 (Some (objects seven_dict ! 6)),
      enriched 7 0 (Some (objects seven_dict ! 7))]"
  by (simp add: processListWithTransaction_def attach_transaction_def seven_sessions_def
      session_def enriched_def seven_entries)

text \<open>
  The binary insertion sort on them: the first five count as a sorted run, each comparing
  equal to its neighbour; the sixth goes behind the second; the seventh is compared with
  the third (it goes before it), the second (equal) and the sixth (it goes after it).
\<close>

lemma seven_ranked:
  "binary_insertion_sort compareFn (processListWithTransaction seven_dict seven_sessions) =
     [enriched 1 0 (Some (objects seven_dict ! 1)), enriched 2 0 (Some (objects seven_dict ! 2)),
      enriched 6 0 (Some (objects seven_dict ! 6)), enriched 7 0 (Some (objects seven_dict ! 7)),
      enriched 3 0 (Some (objects seven_dict ! 3)), enriched 4 0 (Some (objects seven_dict ! 4)),
      enriched 5 0 (Some (objects seven_dict ! 5))]"
  by (simp add: seven_correlated binary_insertion_sort_def binary_insert_def binary_place_stop
      binary_place_below binary_place_above SortCompare_def compareFn_def enriched_def
      seven_times del: One_nat_def)

text \<open>
  The comparator is not a consistent comparator for the seven sessions: 2 seconds ties
  with \<open>NaN\<close>, \<open>NaN\<close> ties with 3 seconds, and 2 seconds does not tie with 3 seconds. The
  language then leaves the order to the engine.
\<close>

lemma seven_inconsistent:
  "\<not> consistent_comparator (SortCompare compareFn)
     (set (processListWithTransaction seven_dict seven_sessions))"
  by (rule not_consistent [of "enriched 3 0 (Some (objects seven_dict ! 3))" _
         "enriched 1 0 (Some (objects seven_dict ! 1))"
         "enriched 5 0 (Some (objects seven_dict ! 5))"])
     (simp_all add: seven_correlated SortCompare_def compareFn_def enriched_def seven_times
        del: One_nat_def)

section \<open>The correlator\<close>

text \<open>
  Claim C6. For every list of session descriptors and every dictionary, the correlator
  returns a list of the same length, whose element at each place has the id of the
  descriptor at that place, and carries the dictionary's entry for that id, or \<open>None\<close>
  when the dictionary has none. The function is total and pure: it raises nothing and
  changes neither argument.
\<close>

theorem correlator_one_to_one:
  "length (processListWithTransaction innoDbStatus processList) = length processList \<and>
   map Id' (processListWithTransaction innoDbStatus processList) = map Id' processList \<and>
   map transaction (processListWithTransaction innoDbStatus processList) =
     map (\<lambda>process. dict_get innoDbStatus (Id' process)) processList \<and>
   (\<forall>k. refs innoDbStatus k = None \<longleftrightarrow> dict_get innoDbStatus k = None)"
  by (simp add: processListWithTransaction_def attach_transaction_def dict_get_def
      split: option.splits)

lemma same_descriptor_attach: "same_descriptor (attach_transaction d p) p"
  by (simp add: same_descriptor_def attach_transaction_def)

text \<open>
  Claim C10. The element the correlator makes of a descriptor has the nine fields of the
  descriptor, unchanged, and the transaction of its id; the sort only moves the elements:
  the element of the ranked list at the new place of a descriptor still has its nine
  fields and its transaction.
\<close>

theorem descriptor_fields_preserved:
  assumes "Array_sort compareFn (processListWithTransaction innoDbStatus processList) \<pi> ranked"
    and "j < length processList"
  shows "same_descriptor (processListWithTransaction innoDbStatus processList ! j) (processList ! j) \<and>
         \<pi> j < length ranked \<and>
         same_descriptor (ranked ! \<pi> j) (processList ! j) \<and>
         transaction (ranked ! \<pi> j) = dict_get innoDbStatus (Id' (processList ! j))"
proof -
  let ?xs = "processListWithTransaction innoDbStatus processList"
  have len: "length ?xs = length processList"
    by (simp add: processListWithTransaction_def)
  from assms(2) have x: "?xs ! j = attach_transaction innoDbStatus (processList ! j)"
    by (simp add: processListWithTransaction_def)
  from assms len have el: "ranked ! \<pi> j = ?xs ! j" and lr: "length ranked = length processList"
    and bij: "bij_betw \<pi> {..<length processList} {..<length processList}"
    by (simp_all add: Array_sort_def)
  from bij assms(2) have "\<pi> j < length processList"
    by (auto simp: bij_betw_def)
  with lr el x show ?thesis
    by (simp add: same_descriptor_attach) (simp add: attach_transaction_def)
qed

theorem descriptor_fields_preserved_witness:
  "same_descriptor (processListWithTransaction scenario_A_dict scenario_C_sessions ! 0)
     (scenario_C_sessions ! 0) \<and>
   [1, 0] ! 0 < length scenario_C_ranked \<and>
   same_descriptor (scenario_C_ranked ! ([1, 0] ! 0)) (scenario_C_sessions ! 0) \<and>
   transaction (scenario_C_ranked ! ([1, 0] ! 0)) =
     dict_get scenario_A_dict (Id' (scenario_C_sessions ! 0))"
proof -
  have "0 < length scenario_C_sessions"
    by (simp add: scenario_C_sessions_def)
  from descriptor_fields_preserved [OF scenario_C_sorted this] show ?thesis .
qed

section \<open>The ranker\<close>


lemma Array_sort_stable:
  assumes "Array_sort compareFn xs \<pi> ys"
    and "consistent_comparator (SortCompare compareFn) (set xs)"
    and "j < k" and "k < length xs"
    and "same_key (xs ! j) (xs ! k)"
  shows "\<pi> j < \<pi> k \<and> ys ! \<pi> j = xs ! j \<and> ys ! \<pi> k = xs ! k"
proof -
  from assms(5) have "eq0 (SortCompare compareFn (xs ! j) (xs ! k))"
    by (rule same_key_eq0)
  with assms(1-4) show ?thesis
    by (simp add: Array_sort_def)
qed

lemma tie_stable:
  "[1, 0, 2] ! 0 < ([1, 0, 2] ! 2 :: nat) \<and>
   tie_output ! ([1, 0, 2] ! 0) = tie_input ! 0 \<and>
   tie_output ! ([1, 0, 2] ! 2) = tie_input ! 2"
proof -
  have l: "(0 :: nat) < 2" "2 < length tie_input"
    and s: "same_key (tie_input ! 0) (tie_input ! 2)"
    by (simp_all add: tie_input_def same_key_def session_defs)
  from Array_sort_stable [OF tie_sorted tie_consistent l s] show ?thesis .
qed



text \<open>
  Claim C5. For every input list, two elements of equal comparator keys keep their order
  in the ranker's output. The code breaks it on \<open>seven_report\<close> and the seven sessions of
  the ids 1 to 7. The parser gives the three transactions that have not started the
  \<open>activeTime\<close> \<open>NaN\<close>, the comparator returns \<open>NaN\<close> against them and is not a consistent
  comparator for the list (lemma \<open>seven_inconsistent\<close>), and the binary insertion sort,
  the sort of the engine on an array of seven elements, returns the sessions in the order
  1, 2, 6, 7, 3, 4, 5: the seventh session before the fifth, which both have a transaction
  of 3 seconds and of which the fifth comes first in the input.
\<close>

theorem equal_keys_reordered:
  "parseInnoDbStatus seven_report = Inr seven_dict \<and>
   map Id' (processListWithTransaction seven_dict seven_sessions) =
     [Finite 1, Finite 2, Finite 3, Finite 4, Finite 5, Finite 6, Finite 7] \<and>
   map sort_key (processListWithTransaction seven_dict seven_sessions) =
     [NaN, NaN, Finite 2, NaN, Finite 3, Finite 4, Finite 3] \<and>
   same_key (processListWithTransaction seven_dict seven_sessions ! 4)
     (processListWithTransaction seven_dict seven_sessions ! 6) \<and>
   map Id' (binary_insertion_sort compareFn (processListWithTransaction seven_dict seven_sessions)) =
     [Finite 1, Finite 2, Finite 6, Finite 7, Finite 3, Finite 4, Finite 5]"
proof -
  have "map Id' (processListWithTransaction seven_dict seven_sessions) =
     [Finite 1, Finite 2, Finite 3, Finite 4, Finite 5, Finite 6, Finite 7]"
    by (simp add: seven_correlated enriched_def)
  moreover have "map sort_key (processListWithTransaction seven_dict seven_sessions) =
     [NaN, NaN, Finite 2, NaN, Finite 3, Finite 4, Finite 3]"
    by (simp add: seven_correlated enriched_def sort_key_def seven_times del: One_nat_def)
  moreover have "same_key (processListWithTransaction seven_dict seven_sessions ! 4)
     (processListWithTransaction seven_dict seven_sessions ! 6)"
    by (simp add: seven_correlated enriched_def same_key_def seven_times)
  moreover have "map Id' (binary_insertion_sort compareFn
      (processListWithTransaction seven_dict seven_sessions)) =
     [Finite 1, Finite 2, Finite 6, Finite 7, Finite 3, Finite 4, Finite 5]"
    by (simp add: seven_ranked enriched_def)
  ultimately show ?thesis
    using parse_seven by simp
qed

end
